theory Spec2Isabelle
  imports Main "HOL-Library.Word" "HOL-Library.Multiset"
begin

section \<open>P-site offset estimation (psite_trimmed.py)\<close>

text \<open>
  The script reads annotated start codons, tallies for every read length the position of
  the start codon inside the reads that cover it, and aligns the tallies of every read
  length against those of the most common one. Exceptions of the script are values of
  \<open>py_error\<close>; a function that can raise returns \<open>py_error + 'a\<close>.
\<close>

datatype py_error = ValueError | IndexError | AttributeError

subsection \<open>Command-line options and reads\<close>

record opts =
  minrdlen :: int
  maxrdlen :: int
  max5mis :: int
  numproc :: int

text \<open>
  A pysam alignment as far as the script looks at it: the strand flag, the reference
  positions of its aligned bases, and the pair that the library function
  \<open>read_length_nmis\<close> returns for it (read length after trimming 5' mismatches, number
  of 5' mismatches). The library function is not part of the script, so its result is a
  field of the read.
\<close>

record aligned_read =
  is_reverse :: bool
  positions :: "int list"
  length_nmis :: "int \<times> int"

definition read_length_nmis :: "aligned_read \<Rightarrow> int \<times> int" where
  "read_length_nmis rd = length_nmis rd"

subsection \<open>offset_to_gcoord\<close>

text \<open>\<open>next(gen, None)\<close>: the first element the generator yields, or \<open>None\<close>.\<close>

definition py_next :: "'a list \<Rightarrow> 'a option" where
  "py_next xs = (case xs of [] \<Rightarrow> None | x # _ \<Rightarrow> Some x)"

definition offset_to_gcoord :: "aligned_read \<Rightarrow> int \<Rightarrow> int option" where
  "offset_to_gcoord rd gcoord =
     (if is_reverse rd
      then py_next [int (length (positions rd)) - int idx - 1.
                      (idx, pos) \<leftarrow> enumerate 0 (positions rd), pos = gcoord]
      else py_next [int idx. (idx, pos) \<leftarrow> enumerate 0 (positions rd), pos = gcoord])"

subsection \<open>The start codons: gcoorddict\<close>

text \<open>
  One line of the BED file after \<open>strip().split()\<close>: the script reads columns 0, 5, 6
  and 7 and converts the last two with \<open>int\<close>.
\<close>

record bedline =
  chrom :: string
  strand :: string
  thickstart :: int
  thickend :: int

text \<open>
  \<open>gcoorddict\<close> is a \<open>defaultdict(set)\<close>. The dictionary is an association list with
  one entry per key; a Python set is the list of its elements, each held once. The order
  of either list stands for the iteration order, which Python leaves open.
\<close>

type_synonym gkey = "string \<times> string"
type_synonym gcoorddict = "(gkey \<times> int list) list"

definition set_add :: "int \<Rightarrow> int list \<Rightarrow> int list" where
  "set_add x s = (if x \<in> set s then s else s @ [x])"

text \<open>\<open>d[k].add(x)\<close> on a \<open>defaultdict(set)\<close>: a missing key starts from the empty set.\<close>

fun dict_add :: "gkey \<Rightarrow> int \<Rightarrow> gcoorddict \<Rightarrow> gcoorddict" where
  "dict_add k x [] = [(k, set_add x [])]"
| "dict_add k x ((k', s) # d) =
     (if k' = k then (k', set_add x s) # d else (k', s) # dict_add k x d)"

definition dict_get :: "gcoorddict \<Rightarrow> gkey \<Rightarrow> int list" where
  "dict_get d k = (case map_of d k of None \<Rightarrow> [] | Some s \<Rightarrow> s)"

definition dict_keys :: "gcoorddict \<Rightarrow> gkey list" where
  "dict_keys d = map fst d"

definition add_bedline :: "gcoorddict \<Rightarrow> bedline \<Rightarrow> gcoorddict" where
  "add_bedline d bl =
     (if thickstart bl \<noteq> thickend bl
      then (if strand bl = ''+''
            then dict_add (chrom bl, strand bl) (thickstart bl) d
            else dict_add (chrom bl, strand bl) (thickend bl - 1) d)
      else d)"

definition build_gcoorddict :: "bedline list \<Rightarrow> gcoorddict" where
  "build_gcoorddict bls = foldl add_bedline [] bls"

subsection \<open>The tally matrix and map_start_sites\<close>

text \<open>
  \<open>offset_tallies\<close> is a two-dimensional numpy array of \<open>uint32\<close>: a list of rows of
  32-bit words, whose addition wraps as numpy's does.
\<close>

type_synonym tally = "32 word list list"

definition has_shape :: "'a list list \<Rightarrow> nat \<Rightarrow> nat \<Rightarrow> bool" where
  "has_shape M r c = (length M = r \<and> list_all (\<lambda>row. length row = c) M)"

text \<open>\<open>np.zeros((r, c), np.uint32)\<close> raises \<open>ValueError\<close> on a negative dimension.\<close>

definition np_zeros :: "int \<Rightarrow> int \<Rightarrow> py_error + tally" where
  "np_zeros r c =
     (if r < 0 \<or> c < 0 then Inl ValueError
      else Inr (replicate (nat r) (replicate (nat c) 0)))"

text \<open>
  An integer index into an axis of length \<open>n\<close>: numpy counts a negative index from the
  end and raises \<open>IndexError\<close> outside \<open>-n .. n-1\<close>.
\<close>

definition np_index :: "int \<Rightarrow> nat \<Rightarrow> py_error + nat" where
  "np_index i n =
     (let j = (if i < 0 then i + int n else i)
      in if 0 \<le> j \<and> j < int n then Inr (nat j) else Inl IndexError)"

text \<open>\<open>offset_tallies[i, j] += 1\<close>.\<close>

definition tally_incr :: "tally \<Rightarrow> int \<Rightarrow> int \<Rightarrow> py_error + tally" where
  "tally_incr M i j =
     (case np_index i (length M) of
        Inl e \<Rightarrow> Inl e
      | Inr r \<Rightarrow>
          (case np_index j (length (M ! r)) of
             Inl e \<Rightarrow> Inl e
           | Inr c \<Rightarrow> Inr (M[r := (M ! r)[c := M ! r ! c + 1]])))"

text \<open>
  An open alignment file is its \<open>fetch(reference, start, end)\<close>: the reads that overlap
  the interval, in file order. The file is taken to know every chromosome it is asked
  for; what pysam raises otherwise is not modelled.
\<close>

type_synonym bam = "string \<Rightarrow> int \<Rightarrow> int \<Rightarrow> aligned_read list"

definition get_reads :: "bam list \<Rightarrow> string \<Rightarrow> string \<Rightarrow> int \<Rightarrow> aligned_read list" where
  "get_reads inbams chr str gcoord =
     (if str = ''+''
      then filter (\<lambda>rd. \<not> is_reverse rd)
             (concat (map (\<lambda>bamfile. bamfile chr gcoord (gcoord + 1)) inbams))
      else filter (\<lambda>rd. is_reverse rd)
             (concat (map (\<lambda>bamfile. bamfile chr gcoord (gcoord + 1)) inbams)))"

text \<open>The body of the inner loop of \<open>map_start_sites\<close>, for one read at one start codon.\<close>

definition tally_read :: "opts \<Rightarrow> int \<Rightarrow> tally \<Rightarrow> aligned_read \<Rightarrow> py_error + tally" where
  "tally_read cfg gcoord M rd =
     (case read_length_nmis rd of (rdlen, nmis) \<Rightarrow>
        if minrdlen cfg \<le> rdlen \<and> rdlen \<le> maxrdlen cfg \<and> nmis \<le> max5mis cfg
        then (case offset_to_gcoord rd gcoord of
                None \<Rightarrow> Inr M
              | Some curr_offset \<Rightarrow>
                  if curr_offset \<ge> nmis
                  then tally_incr M (rdlen - minrdlen cfg) (curr_offset - nmis)
                  else Inr M)
        else Inr M)"

fun tally_reads :: "opts \<Rightarrow> int \<Rightarrow> tally \<Rightarrow> aligned_read list \<Rightarrow> py_error + tally" where
  "tally_reads cfg gcoord M [] = Inr M"
| "tally_reads cfg gcoord M (rd # rds) =
     (case tally_read cfg gcoord M rd of
        Inl e \<Rightarrow> Inl e
      | Inr M' \<Rightarrow> tally_reads cfg gcoord M' rds)"

fun tally_gcoords ::
  "opts \<Rightarrow> bam list \<Rightarrow> string \<Rightarrow> string \<Rightarrow> tally \<Rightarrow> int list \<Rightarrow> py_error + tally" where
  "tally_gcoords cfg inbams chr str M [] = Inr M"
| "tally_gcoords cfg inbams chr str M (gcoord # gcoords) =
     (case tally_reads cfg gcoord M (get_reads inbams chr str gcoord) of
        Inl e \<Rightarrow> Inl e
      | Inr M' \<Rightarrow> tally_gcoords cfg inbams chr str M' gcoords)"

definition map_start_sites :: "opts \<Rightarrow> bam list \<Rightarrow> gcoorddict \<Rightarrow> gkey \<Rightarrow> py_error + tally" where
  "map_start_sites cfg inbams gd k =
     (case k of (chr, str) \<Rightarrow>
        (case np_zeros (maxrdlen cfg + 1 - minrdlen cfg) (maxrdlen cfg) of
           Inl e \<Rightarrow> Inl e
         | Inr offset_tallies \<Rightarrow>
             tally_gcoords cfg inbams chr str offset_tallies (dict_get gd (chr, str))))"

subsection \<open>Summing the matrices of the work units\<close>

text \<open>
  \<open>sum(workers.map(map_start_sites, gcoorddict.keys()))\<close> starts from the integer 0 and
  adds the matrices from left to right; \<open>0 + M\<close> adds 0 to every cell. All matrices have
  the shape that \<open>map_start_sites\<close> allocates, so the addition is cell by cell (numpy's
  broadcasting of unequal shapes is not modelled). \<open>astype(np.float64)\<close> fails on the
  integer 0 that \<open>sum\<close> returns for an empty list.
\<close>

definition ndarray_add :: "tally \<Rightarrow> tally \<Rightarrow> tally" where
  "ndarray_add A B = map2 (map2 (+)) A B"

datatype sum_value = IntZero | NdArray tally

fun py_add :: "sum_value \<Rightarrow> tally \<Rightarrow> sum_value" where
  "py_add IntZero B = NdArray (map (map (\<lambda>x. 0 + x)) B)"
| "py_add (NdArray A) B = NdArray (ndarray_add A B)"

definition py_sum :: "tally list \<Rightarrow> sum_value" where
  "py_sum Ms = foldl py_add IntZero Ms"

definition astype_float64 :: "sum_value \<Rightarrow> py_error + int list list" where
  "astype_float64 v = (case v of IntZero \<Rightarrow> Inl AttributeError | NdArray A \<Rightarrow> Inr (map (map uint) A))"

subsection \<open>Resolving the offsets\<close>

text \<open>
  After \<open>astype(np.float64)\<close> every cell holds the value of a \<open>uint32\<close>, which a float
  represents exactly; the matrix is a list of rows of integers, and sums and products
  are the exact ones (those of float64 as long as they stay below \<open>2^53\<close>).

  \<open>np.argmax\<close> returns the index of the first occurrence of the maximum and raises
  \<open>ValueError\<close> on an empty array. \<open>np.correlate(a, v, 'full')\<close> returns, for each of the
  \<open>len(a) + len(v) - 1\<close> lags in increasing order, the sum of \<open>a[n + k] * v[n]\<close> over
  the \<open>n\<close> for which both indices exist, \<open>k\<close> running from \<open>-(len(v) - 1)\<close>; it raises
  \<open>ValueError\<close> on an empty argument.
\<close>

type_synonym matrix = "int list list"

fun argmax_scan :: "int list \<Rightarrow> nat \<Rightarrow> int \<Rightarrow> nat \<Rightarrow> nat" where
  "argmax_scan [] i best besti = besti"
| "argmax_scan (x # xs) i best besti =
     (if best < x then argmax_scan xs (Suc i) x i else argmax_scan xs (Suc i) best besti)"

definition np_argmax :: "int list \<Rightarrow> py_error + nat" where
  "np_argmax xs = (case xs of [] \<Rightarrow> Inl ValueError | x # rest \<Rightarrow> Inr (argmax_scan rest 1 x 0))"

definition correlate_at :: "int list \<Rightarrow> int list \<Rightarrow> nat \<Rightarrow> int" where
  "correlate_at a v k =
     (\<Sum>n\<leftarrow>[0..<length v].
        if length v - 1 \<le> n + k \<and> n + k - (length v - 1) < length a
        then a ! (n + k - (length v - 1)) * v ! n else 0)"

definition np_correlate_full :: "int list \<Rightarrow> int list \<Rightarrow> py_error + int list" where
  "np_correlate_full a v =
     (if a = [] \<or> v = [] then Inl ValueError
      else Inr (map (correlate_at a v) [0..<length a + length v - 1]))"

fun collect :: "(py_error + 'a) list \<Rightarrow> py_error + 'a list" where
  "collect [] = Inr []"
| "collect (r # rs) =
     (case r of Inl e \<Rightarrow> Inl e
      | Inr x \<Rightarrow> (case collect rs of Inl e \<Rightarrow> Inl e | Inr xs \<Rightarrow> Inr (x # xs)))"

definition row_offset :: "opts \<Rightarrow> nat \<Rightarrow> int list \<Rightarrow> int list \<Rightarrow> py_error + int" where
  "row_offset cfg master_offset master row =
     (case np_correlate_full row master of
        Inl e \<Rightarrow> Inl e
      | Inr c \<Rightarrow>
          (case np_argmax c of
             Inl e \<Rightarrow> Inl e
           | Inr lag \<Rightarrow> Inr (int master_offset + int lag + 1 - maxrdlen cfg)))"

definition resolve_offsets :: "opts \<Rightarrow> matrix \<Rightarrow> py_error + int list" where
  "resolve_offsets cfg offset_tallies =
     (case np_argmax (map sum_list offset_tallies) of
        Inl e \<Rightarrow> Inl e
      | Inr master_rdlen_idx \<Rightarrow>
          (case np_argmax (offset_tallies ! master_rdlen_idx) of
             Inl e \<Rightarrow> Inl e
           | Inr master_offset \<Rightarrow>
               collect (map (row_offset cfg master_offset (offset_tallies ! master_rdlen_idx))
                          offset_tallies)))"

text \<open>The index of the first occurrence of the greatest element of a list.\<close>

definition is_first_max :: "int list \<Rightarrow> nat \<Rightarrow> bool" where
  "is_first_max xs i =
     (i < length xs \<and> list_all (\<lambda>x. x \<le> xs ! i) xs \<and> list_all (\<lambda>x. x < xs ! i) (take i xs))"

subsection \<open>The script from the work units to the offset file\<close>

text \<open>
  \<open>mp.Pool(numproc)\<close> raises \<open>ValueError\<close> for fewer than one process; \<open>workers.map\<close>
  returns the matrices in the order of the keys and re-raises what a unit raised.
\<close>

definition compute_offsets :: "opts \<Rightarrow> bam list \<Rightarrow> gcoorddict \<Rightarrow> py_error + int list" where
  "compute_offsets cfg inbams gd =
     (if numproc cfg < 1 then Inl ValueError
      else
        (case collect (map (map_start_sites cfg inbams gd) (dict_keys gd)) of
           Inl e \<Rightarrow> Inl e
         | Inr tallies \<Rightarrow>
             (case astype_float64 (py_sum tallies) of
                Inl e \<Rightarrow> Inl e
              | Inr offset_tallies \<Rightarrow> resolve_offsets cfg offset_tallies)))"

text \<open>\<open>'%d\t%d\n' % (minrdlen + i, offset)\<close> for every row, in order.\<close>

fun str_nat :: "nat \<Rightarrow> string" where
  "str_nat n =
     (if n < 10 then [char_of (48 + n)]
      else str_nat (n div 10) @ [char_of (48 + n mod 10)])"

definition str_int :: "int \<Rightarrow> string" where
  "str_int i = (if i < 0 then CHR ''-'' # str_nat (nat (- i)) else str_nat (nat i))"

definition offsetfile_text :: "opts \<Rightarrow> int list \<Rightarrow> string" where
  "offsetfile_text cfg offsets =
     concat (map (\<lambda>(i, offset). str_int (minrdlen cfg + int i) @ [CHR 0x09] @ str_int offset @ [CHR 0x0A])
                 (enumerate 0 offsets))"

definition script_output :: "opts \<Rightarrow> bam list \<Rightarrow> gcoorddict \<Rightarrow> py_error + string" where
  "script_output cfg inbams gd =
     (case compute_offsets cfg inbams gd of
        Inl e \<Rightarrow> Inl e
      | Inr offsets \<Rightarrow> Inr (offsetfile_text cfg offsets))"

text \<open>
  The alignment files are opened before anything else and closed by the last statement
  of the script; an exception on the way ends the script where it is raised. A run
  returns the text of the offset file or the exception, and the state of every handle.
  The optional tally file and failures of the file system are not modelled.
\<close>

datatype handle = Open | Closed

record run_result =
  outcome :: "py_error + string"
  inbams_state :: "handle list"

definition run_script :: "opts \<Rightarrow> bam list \<Rightarrow> bedline list \<Rightarrow> run_result" where
  "run_script cfg inbams bedlines =
     (let handles = map (\<lambda>_. Open) inbams;
          gd = build_gcoorddict bedlines
      in case compute_offsets cfg inbams gd of
           Inl e \<Rightarrow> \<lparr>outcome = Inl e, inbams_state = handles\<rparr>
         | Inr offsets \<Rightarrow>
             \<lparr>outcome = Inr (offsetfile_text cfg offsets),
              inbams_state = map (\<lambda>_. Closed) handles\<rparr>)"

text \<open>Two alignment files for the examples.\<close>

definition no_reads :: bam where
  "no_reads chr start end = []"

definition two_reads :: bam where
  "two_reads chr start end =
     (if chr = ''chr1'' \<and> start \<le> 12 \<and> 10 < end
      then [\<lparr>is_reverse = False, positions = [10, 11, 12], length_nmis = (3, 0)\<rparr>,
            \<lparr>is_reverse = True, positions = [10, 11, 12], length_nmis = (2, 1)\<rparr>]
      else [])"

subsection \<open>Auxiliary notions for the proofs\<close>

text \<open>The coordinate that a kept annotation record contributes.\<close>

definition start_codon :: "bedline \<Rightarrow> int" where
  "start_codon bl = (if strand bl = ''+'' then thickstart bl else thickend bl - 1)"

text \<open>The cell that a read is tallied at, if it passes the filters.\<close>

definition tally_target :: "opts \<Rightarrow> int \<times> aligned_read \<Rightarrow> (int \<times> int) option" where
  "tally_target cfg ev =
     (case read_length_nmis (snd ev) of (rdlen, nmis) \<Rightarrow>
        if minrdlen cfg \<le> rdlen \<and> rdlen \<le> maxrdlen cfg \<and> nmis \<le> max5mis cfg
        then (case offset_to_gcoord (snd ev) (fst ev) of
                None \<Rightarrow> None
              | Some curr_offset \<Rightarrow>
                  if curr_offset \<ge> nmis then Some (rdlen - minrdlen cfg, curr_offset - nmis)
                  else None)
        else None)"

text \<open>The loop body on the result so far: after an exception nothing more is done.\<close>

definition lift_read :: "opts \<Rightarrow> int \<times> aligned_read \<Rightarrow> py_error + tally \<Rightarrow> py_error + tally" where
  "lift_read cfg ev s = (case s of Inl e \<Rightarrow> Inl e | Inr M \<Rightarrow> tally_read cfg (fst ev) M (snd ev))"

definition cell_incr :: "tally \<Rightarrow> nat \<Rightarrow> nat \<Rightarrow> tally" where
  "cell_incr M r c = M[r := (M ! r)[c := M ! r ! c + 1]]"

text \<open>The start codons of a unit paired with the reads fetched at each, in loop order.\<close>

definition unit_events :: "bam list \<Rightarrow> string \<Rightarrow> string \<Rightarrow> int list \<Rightarrow> (int \<times> aligned_read) list" where
  "unit_events inbams chr str gs = concat (map (\<lambda>g. map (Pair g) (get_reads inbams chr str g)) gs)"

subsection \<open>Properties of offset_to_gcoord\<close>

lemma enumerate_hits_none:
  "g \<notin> set ps \<Longrightarrow> [f idx. (idx, pos) \<leftarrow> enumerate n ps, pos = g] = []"
  by (induction ps arbitrary: n) auto

lemma enumerate_hits_first:
  "g \<in> set ps \<Longrightarrow>
   \<exists>idx<length ps. ps ! idx = g \<and> (\<forall>j<idx. ps ! j \<noteq> g) \<and>
     py_next [f idx. (idx, pos) \<leftarrow> enumerate n ps, pos = g] = Some (f (n + idx))"
proof (induction ps arbitrary: n)
  case Nil
  then show ?case by simp
next
  case (Cons p ps)
  show ?case
  proof (cases "p = g")
    case True
    then have "(p # ps) ! 0 = g \<and> (\<forall>j<0. (p # ps) ! j \<noteq> g) \<and>
        py_next [f idx. (idx, pos) \<leftarrow> enumerate n (p # ps), pos = g] = Some (f (n + 0))"
      by (simp add: py_next_def)
    then show ?thesis by blast
  next
    case False
    with Cons.prems have "g \<in> set ps" by simp
    from Cons.IH [OF this, of "Suc n"] obtain idx where idx:
      "idx < length ps" "ps ! idx = g" "\<forall>j<idx. ps ! j \<noteq> g"
      "py_next [f idx. (idx, pos) \<leftarrow> enumerate (Suc n) ps, pos = g] = Some (f (Suc n + idx))"
      by blast
    have "\<forall>j<Suc idx. (p # ps) ! j \<noteq> g"
      using False idx(3) by (auto simp: nth_Cons split: nat.splits)
    moreover have "py_next [f idx. (idx, pos) \<leftarrow> enumerate n (p # ps), pos = g]
        = Some (f (n + Suc idx))"
      using False idx(4) by simp
    ultimately have "Suc idx < length (p # ps) \<and> (p # ps) ! Suc idx = g \<and>
        (\<forall>j<Suc idx. (p # ps) ! j \<noteq> g) \<and>
        py_next [f idx. (idx, pos) \<leftarrow> enumerate n (p # ps), pos = g] = Some (f (n + Suc idx))"
      using idx(1,2) by simp
    then show ?thesis by blast
  qed
qed

lemma offset_to_gcoord_None:
  "gcoord \<notin> set (positions rd) \<Longrightarrow> offset_to_gcoord rd gcoord = None"
  by (simp add: offset_to_gcoord_def enumerate_hits_none py_next_def)

lemma offset_to_gcoord_Some:
  assumes "gcoord \<in> set (positions rd)"
  shows "\<exists>idx<length (positions rd). positions rd ! idx = gcoord \<and>
           (\<forall>j<idx. positions rd ! j \<noteq> gcoord) \<and>
           offset_to_gcoord rd gcoord =
             Some (if is_reverse rd then int (length (positions rd)) - 1 - int idx else int idx)"
proof (cases "is_reverse rd")
  case True
  from enumerate_hits_first [OF assms, of "\<lambda>idx. int (length (positions rd)) - int idx - 1" 0]
  show ?thesis using True by (auto simp: offset_to_gcoord_def algebra_simps)
next
  case False
  from enumerate_hits_first [OF assms, of int 0]
  show ?thesis using False by (auto simp: offset_to_gcoord_def)
qed

lemma offset_to_gcoord_range:
  assumes "offset_to_gcoord rd gcoord = Some k"
  shows "0 \<le> k \<and> k < int (length (positions rd))"
proof -
  have "gcoord \<in> set (positions rd)"
    using assms offset_to_gcoord_None by fastforce
  from offset_to_gcoord_Some [OF this] assms show ?thesis
    by (auto split: if_splits)
qed

text \<open>
  C3. For a read whose covered positions contain the coordinate, \<open>offset_to_gcoord\<close>
  returns the 0-based index of the first matching position on the forward strand and
  (number of positions - 1 - index) on the reverse strand; when no position matches it
  returns \<open>None\<close>; whatever it returns lies inside the read. A forward read over
  100..103 asked for 100 gives 0, and so does the reverse read asked for 103.
\<close>

theorem offset_to_gcoord_spec:
  "(gcoord \<in> set (positions rd) \<longrightarrow>
      (\<exists>idx<length (positions rd). positions rd ! idx = gcoord \<and>
         (\<forall>j<idx. positions rd ! j \<noteq> gcoord) \<and>
         offset_to_gcoord rd gcoord =
           Some (if is_reverse rd then int (length (positions rd)) - 1 - int idx else int idx)))
   \<and> (gcoord \<notin> set (positions rd) \<longrightarrow> offset_to_gcoord rd gcoord = None)
   \<and> (\<forall>k. offset_to_gcoord rd gcoord = Some k \<longrightarrow> 0 \<le> k \<and> k < int (length (positions rd)))
   \<and> offset_to_gcoord
        \<lparr>is_reverse = False, positions = [100, 101, 102, 103], length_nmis = ln\<rparr> 100 = Some 0
   \<and> offset_to_gcoord
        \<lparr>is_reverse = True, positions = [100, 101, 102, 103], length_nmis = ln\<rparr> 103 = Some 0"
proof -
  have "offset_to_gcoord
        \<lparr>is_reverse = False, positions = [100, 101, 102, 103], length_nmis = ln\<rparr> 100 = Some 0"
    by (simp add: offset_to_gcoord_def py_next_def)
  moreover have "offset_to_gcoord
        \<lparr>is_reverse = True, positions = [100, 101, 102, 103], length_nmis = ln\<rparr> 103 = Some 0"
    by (simp add: offset_to_gcoord_def py_next_def)
  ultimately show ?thesis
    using offset_to_gcoord_Some offset_to_gcoord_None offset_to_gcoord_range by blast
qed

theorem offset_to_gcoord_spec_witness:
  "102 \<in> set (positions \<lparr>is_reverse = True, positions = [100, 101, 102, 103], length_nmis = (4, 0)\<rparr>)
   \<and> offset_to_gcoord
        \<lparr>is_reverse = True, positions = [100, 101, 102, 103], length_nmis = (4, 0)\<rparr> 102 = Some 1
   \<and> 99 \<notin> set (positions \<lparr>is_reverse = True, positions = [100, 101, 102, 103], length_nmis = (4, 0)\<rparr>)
   \<and> offset_to_gcoord
        \<lparr>is_reverse = True, positions = [100, 101, 102, 103], length_nmis = (4, 0)\<rparr> 99 = None"
  using offset_to_gcoord_spec
    [of 102 "\<lparr>is_reverse = True, positions = [100, 101, 102, 103], length_nmis = (4, 0)\<rparr>"]
    offset_to_gcoord_spec
    [of 99 "\<lparr>is_reverse = True, positions = [100, 101, 102, 103], length_nmis = (4, 0)\<rparr>"]
  by (simp add: offset_to_gcoord_def py_next_def)

subsection \<open>Properties of gcoorddict\<close>

lemma map_of_dict_add:
  "map_of (dict_add k x d) = (map_of d)(k \<mapsto> set_add x (dict_get d k))"
  by (induction d) (auto simp: dict_get_def fun_eq_iff)

lemma dict_get_dict_add:
  "dict_get (dict_add k x d) k' = (if k' = k then set_add x (dict_get d k) else dict_get d k')"
  by (simp add: dict_get_def map_of_dict_add)

lemma keys_dict_add:
  "map fst (dict_add k x d) = (if k \<in> fst ` set d then map fst d else map fst d @ [k])"
proof (induction d)
  case Nil
  then show ?case by simp
next
  case (Cons e d)
  obtain k' s where e: "e = (k', s)" by (cases e)
  show ?case
  proof (cases "k' = k")
    case True
    then show ?thesis by (simp add: e)
  next
    case False
    then show ?thesis using Cons.IH by (simp add: e)
  qed
qed

lemma distinct_count_once:
  "distinct xs \<Longrightarrow> count_list xs x = (if x \<in> set xs then 1 else 0)"
  by (induction xs) auto

lemma distinct_set_add: "distinct s \<Longrightarrow> distinct (set_add x s)"
  by (simp add: set_add_def)

lemma set_set_add: "set (set_add x s) = insert x (set s)"
  by (auto simp: set_add_def)

lemma dict_get_add_bedline:
  "dict_get (add_bedline d bl) k =
     (if thickstart bl \<noteq> thickend bl \<and> (chrom bl, strand bl) = k
      then set_add (start_codon bl) (dict_get d k) else dict_get d k)"
  by (auto simp: add_bedline_def dict_get_dict_add start_codon_def)

lemma set_keys_dict_add: "set (map fst (dict_add k x d)) = insert k (set (map fst d))"
proof -
  have "set (map fst (dict_add k x d)) =
      set (if k \<in> fst ` set d then map fst d else map fst d @ [k])"
    by (simp only: keys_dict_add)
  then show ?thesis by auto
qed

lemma distinct_keys_dict_add:
  assumes "distinct (map fst d)"
  shows "distinct (map fst (dict_add k x d))"
proof -
  have "distinct (if k \<in> fst ` set d then map fst d else map fst d @ [k])"
    using assms by auto
  then show ?thesis by (simp only: keys_dict_add)
qed

lemma keys_add_bedline:
  "set (map fst (add_bedline d bl)) =
     (if thickstart bl \<noteq> thickend bl then insert (chrom bl, strand bl) (set (map fst d))
      else set (map fst d))"
  by (simp only: add_bedline_def set_keys_dict_add split: if_splits) simp

lemma distinct_keys_add_bedline:
  "distinct (map fst d) \<Longrightarrow> distinct (map fst (add_bedline d bl))"
  by (simp only: add_bedline_def distinct_keys_dict_add split: if_splits) simp

lemma foldl_add_bedline_get:
  "set (dict_get (foldl add_bedline d bls) k) =
     set (dict_get d k) \<union>
     {start_codon bl | bl. bl \<in> set bls \<and> (chrom bl, strand bl) = k
                            \<and> thickstart bl \<noteq> thickend bl}"
proof (induction bls arbitrary: d)
  case Nil
  then show ?case by simp
next
  case (Cons b bls)
  show ?case
    unfolding foldl_Cons Cons.IH dict_get_add_bedline
    by (auto simp: set_set_add)
qed

lemma foldl_add_bedline_distinct:
  "distinct (dict_get d k) \<Longrightarrow> distinct (dict_get (foldl add_bedline d bls) k)"
proof (induction bls arbitrary: d)
  case Nil
  then show ?case by simp
next
  case (Cons b bls)
  have "distinct (dict_get (add_bedline d b) k)"
    using Cons.prems by (simp add: dict_get_add_bedline distinct_set_add)
  from Cons.IH [OF this] show ?case by simp
qed

lemma foldl_add_bedline_keys:
  "set (map fst (foldl add_bedline d bls)) =
     set (map fst d) \<union>
     {(chrom bl, strand bl) | bl. bl \<in> set bls \<and> thickstart bl \<noteq> thickend bl}"
proof (induction bls arbitrary: d)
  case Nil
  then show ?case by simp
next
  case (Cons b bls)
  show ?case
    unfolding foldl_Cons Cons.IH keys_add_bedline
    by auto
qed

lemma foldl_add_bedline_distinct_keys:
  "distinct (map fst d) \<Longrightarrow> distinct (map fst (foldl add_bedline d bls))"
  by (induction bls arbitrary: d) (simp_all add: distinct_keys_add_bedline)

text \<open>
  C5. After all annotation records are read, the entry of \<open>gcoorddict\<close> for a key
  (chromosome, strand) holds exactly the coordinates \<open>thickstart\<close> of the records of that
  key on strand \<open>+\<close> and \<open>thickend - 1\<close> of those on any other strand, records with
  \<open>thickstart = thickend\<close> left out; every coordinate is held once however many records
  give it, every key is held once, and the keys are those of the records that are kept.
\<close>

theorem gcoorddict_contents:
  "set (dict_get (build_gcoorddict bls) (c, s)) =
       {thickstart bl | bl. bl \<in> set bls \<and> chrom bl = c \<and> strand bl = s \<and> s = ''+''
                             \<and> thickstart bl \<noteq> thickend bl}
     \<union> {thickend bl - 1 | bl. bl \<in> set bls \<and> chrom bl = c \<and> strand bl = s \<and> s \<noteq> ''+''
                             \<and> thickstart bl \<noteq> thickend bl}
   \<and> distinct (dict_get (build_gcoorddict bls) (c, s))
   \<and> (\<forall>x. count_list (dict_get (build_gcoorddict bls) (c, s)) x
            = (if x \<in> set (dict_get (build_gcoorddict bls) (c, s)) then 1 else 0))
   \<and> distinct (dict_keys (build_gcoorddict bls))
   \<and> set (dict_keys (build_gcoorddict bls)) =
       {(chrom bl, strand bl) | bl. bl \<in> set bls \<and> thickstart bl \<noteq> thickend bl}"
proof -
  let ?cs = "dict_get (build_gcoorddict bls) (c, s)"
  have d: "distinct ?cs"
    unfolding build_gcoorddict_def
    by (rule foldl_add_bedline_distinct) (simp add: dict_get_def)
  have "set ?cs = {start_codon bl | bl. bl \<in> set bls \<and> (chrom bl, strand bl) = (c, s)
                            \<and> thickstart bl \<noteq> thickend bl}"
    unfolding build_gcoorddict_def foldl_add_bedline_get
    by (simp add: dict_get_def)
  then have "set ?cs =
       {thickstart bl | bl. bl \<in> set bls \<and> chrom bl = c \<and> strand bl = s \<and> s = ''+''
                             \<and> thickstart bl \<noteq> thickend bl}
     \<union> {thickend bl - 1 | bl. bl \<in> set bls \<and> chrom bl = c \<and> strand bl = s \<and> s \<noteq> ''+''
                             \<and> thickstart bl \<noteq> thickend bl}"
    by (auto simp: start_codon_def)
  moreover have "\<forall>x. count_list ?cs x = (if x \<in> set ?cs then 1 else 0)"
    using d by (simp add: distinct_count_once)
  moreover have "distinct (dict_keys (build_gcoorddict bls))"
    unfolding build_gcoorddict_def dict_keys_def
    by (rule foldl_add_bedline_distinct_keys) simp
  moreover have "set (dict_keys (build_gcoorddict bls)) =
       {(chrom bl, strand bl) | bl. bl \<in> set bls \<and> thickstart bl \<noteq> thickend bl}"
    unfolding build_gcoorddict_def dict_keys_def foldl_add_bedline_keys
    by simp
  ultimately show ?thesis using d by blast
qed

theorem gcoorddict_contents_witness:
  "set (dict_get (build_gcoorddict
      [\<lparr>chrom = ''chr1'', strand = ''+'', thickstart = 10, thickend = 40\<rparr>,
       \<lparr>chrom = ''chr1'', strand = ''+'', thickstart = 10, thickend = 70\<rparr>,
       \<lparr>chrom = ''chr1'', strand = ''-'', thickstart = 10, thickend = 40\<rparr>,
       \<lparr>chrom = ''chr1'', strand = ''+'', thickstart = 25, thickend = 25\<rparr>]) (''chr1'', ''+'')) = {10}
   \<and> count_list (dict_get (build_gcoorddict
      [\<lparr>chrom = ''chr1'', strand = ''+'', thickstart = 10, thickend = 40\<rparr>,
       \<lparr>chrom = ''chr1'', strand = ''+'', thickstart = 10, thickend = 70\<rparr>,
       \<lparr>chrom = ''chr1'', strand = ''-'', thickstart = 10, thickend = 40\<rparr>,
       \<lparr>chrom = ''chr1'', strand = ''+'', thickstart = 25, thickend = 25\<rparr>]) (''chr1'', ''+'')) 10 = 1"
proof -
  let ?bls = "[\<lparr>chrom = ''chr1'', strand = ''+'', thickstart = 10, thickend = 40\<rparr>,
       \<lparr>chrom = ''chr1'', strand = ''+'', thickstart = 10, thickend = 70\<rparr>,
       \<lparr>chrom = ''chr1'', strand = ''-'', thickstart = 10, thickend = 40\<rparr>,
       \<lparr>chrom = ''chr1'', strand = ''+'', thickstart = 25, thickend = 25\<rparr>]"
  let ?cs = "dict_get (build_gcoorddict ?bls) (''chr1'', ''+'')"
  let ?A = "{thickstart bl | bl. bl \<in> set ?bls \<and> chrom bl = ''chr1'' \<and> strand bl = ''+''
                \<and> ''+'' = ''+'' \<and> thickstart bl \<noteq> thickend bl}"
  let ?B = "{thickend bl - 1 | bl. bl \<in> set ?bls \<and> chrom bl = ''chr1'' \<and> strand bl = ''+''
                \<and> ''+'' \<noteq> ''+'' \<and> thickstart bl \<noteq> thickend bl}"
  have "set ?cs = ?A \<union> ?B"
    using gcoorddict_contents [of ?bls "''chr1''" "''+''"] by (rule conjunct1)
  moreover have "?A = {10}"
  proof
    show "?A \<subseteq> {10}" by auto
    have "\<lparr>chrom = ''chr1'', strand = ''+'', thickstart = 10, thickend = 40\<rparr> \<in> set ?bls"
      by simp
    then have "thickstart \<lparr>chrom = ''chr1'', strand = ''+'', thickstart = 10, thickend = 40\<rparr> \<in> ?A"
      by (intro CollectI exI [of _ "\<lparr>chrom = ''chr1'', strand = ''+'', thickstart = 10, thickend = 40\<rparr>"])
         simp
    then show "{10} \<subseteq> ?A" by simp
  qed
  moreover have "?B = {}" by simp
  ultimately have s: "set ?cs = {10}" by simp
  have "\<forall>x. count_list ?cs x = (if x \<in> set ?cs then 1 else 0)"
    using gcoorddict_contents [of ?bls "''chr1''" "''+''"] by blast
  then have "count_list ?cs 10 = (if 10 \<in> set ?cs then 1 else 0)" by (rule spec)
  with s show ?thesis by simp
qed

subsection \<open>Properties of the tally step\<close>

lemma np_index_in_range: "0 \<le> i \<Longrightarrow> i < int n \<Longrightarrow> np_index i n = Inr (nat i)"
  by (simp add: np_index_def)

lemma np_index_above: "int n \<le> i \<Longrightarrow> np_index i n = Inl IndexError"
  by (simp add: np_index_def)

lemma tally_incr_in_range:
  assumes "0 \<le> i" "nat i < length M" "0 \<le> j" "nat j < length (M ! nat i)"
  shows "tally_incr M i j = Inr (M[nat i := (M ! nat i)[nat j := M ! nat i ! nat j + 1]])"
proof -
  have "np_index i (length M) = Inr (nat i)"
    using assms(1,2) by (intro np_index_in_range) auto
  moreover have "np_index j (length (M ! nat i)) = Inr (nat j)"
    using assms(3,4) by (intro np_index_in_range) auto
  ultimately show ?thesis by (simp add: tally_incr_def)
qed

lemma tally_incr_column_above:
  assumes "0 \<le> i" "nat i < length M" "int (length (M ! nat i)) \<le> j"
  shows "tally_incr M i j = Inl IndexError"
proof -
  have "np_index i (length M) = Inr (nat i)"
    using assms(1,2) by (intro np_index_in_range) auto
  then show ?thesis using assms(3) by (simp add: tally_incr_def np_index_above)
qed



lemma tally_read_accepted:
  assumes "read_length_nmis rd = (rdlen, nmis)"
    and "minrdlen cfg \<le> rdlen" "rdlen \<le> maxrdlen cfg" "nmis \<le> max5mis cfg"
    and "offset_to_gcoord rd gcoord = Some off" "nmis \<le> off"
  shows "tally_read cfg gcoord M rd = tally_incr M (rdlen - minrdlen cfg) (off - nmis)"
  using assms by (simp add: tally_read_def)



subsection \<open>The tally write stays inside the matrix\<close>

lemma has_shape_nth: "has_shape M r c \<Longrightarrow> i < r \<Longrightarrow> length (M ! i) = c"
  by (auto simp: has_shape_def list_all_length)

lemma has_shape_update:
  assumes "has_shape M r c" "i < r"
  shows "has_shape (M[i := (M ! i)[j := v]]) r c"
  using assms by (auto simp: has_shape_def list_all_length nth_list_update)

lemma has_shape_np_zeros: "np_zeros r c = Inr Z \<Longrightarrow> has_shape Z (nat r) (nat c)"
  by (auto simp: np_zeros_def has_shape_def list_all_length split: if_splits)

text \<open>
  C10. A read that passes the filters (minrdlen \<open>\<le>\<close> rdlen \<open>\<le>\<close> maxrdlen, nmis \<open>\<le>\<close> max5mis,
  offset found, offset \<open>\<ge>\<close> nmis) and has at most rdlen + nmis covered positions is
  written at a row between 0 and maxrdlen - minrdlen and a column between 0 and
  maxrdlen - 1: on a matrix of (maxrdlen - minrdlen + 1) rows and maxrdlen columns the
  write raises nothing and returns a matrix of the same shape.
\<close>

theorem tally_write_in_bounds:
  assumes "read_length_nmis rd = (rdlen, nmis)"
    and "minrdlen cfg \<le> rdlen" "rdlen \<le> maxrdlen cfg" "nmis \<le> max5mis cfg"
    and "offset_to_gcoord rd gcoord = Some off" "nmis \<le> off"
    and "int (length (positions rd)) \<le> rdlen + nmis"
    and "has_shape M (nat (maxrdlen cfg + 1 - minrdlen cfg)) (nat (maxrdlen cfg))"
  shows "0 \<le> rdlen - minrdlen cfg \<and> rdlen - minrdlen cfg \<le> maxrdlen cfg - minrdlen cfg
       \<and> 0 \<le> off - nmis \<and> off - nmis \<le> maxrdlen cfg - 1
       \<and> (\<exists>M'. tally_read cfg gcoord M rd = Inr M'
               \<and> has_shape M' (nat (maxrdlen cfg + 1 - minrdlen cfg)) (nat (maxrdlen cfg)))"
proof -
  let ?i = "rdlen - minrdlen cfg" and ?j = "off - nmis"
  let ?r = "nat (maxrdlen cfg + 1 - minrdlen cfg)" and ?c = "nat (maxrdlen cfg)"
  have "off < int (length (positions rd))"
    using offset_to_gcoord_range [OF assms(5)] by simp
  then have j: "0 \<le> ?j" "?j \<le> maxrdlen cfg - 1"
    using assms(3,6,7) by simp_all
  have i: "0 \<le> ?i" "?i \<le> maxrdlen cfg - minrdlen cfg"
    using assms(2,3) by simp_all
  have ir: "nat ?i < ?r" using i by simp
  then have rows: "nat ?i < length M" using assms(8) by (simp add: has_shape_def)
  have "length (M ! nat ?i) = ?c" using assms(8) ir by (rule has_shape_nth)
  then have cols: "nat ?j < length (M ! nat ?i)" using j by simp
  have "tally_read cfg gcoord M rd = tally_incr M ?i ?j"
    using assms(1-6) by (rule tally_read_accepted)
  also have "\<dots> = Inr (M[nat ?i := (M ! nat ?i)[nat ?j := M ! nat ?i ! nat ?j + 1]])"
    using i(1) rows j(1) cols by (rule tally_incr_in_range)
  finally have "tally_read cfg gcoord M rd =
      Inr (M[nat ?i := (M ! nat ?i)[nat ?j := M ! nat ?i ! nat ?j + 1]])" .
  moreover have "has_shape (M[nat ?i := (M ! nat ?i)[nat ?j := M ! nat ?i ! nat ?j + 1]]) ?r ?c"
    using assms(8) ir by (rule has_shape_update)
  ultimately show ?thesis using i j by blast
qed

theorem tally_write_in_bounds_witness:
  "offset_to_gcoord
      \<lparr>is_reverse = True, positions = [100, 101, 102, 103, 104, 105], length_nmis = (6, 0)\<rparr> 100
     = Some 5
   \<and> int (length [100, 101, 102, 103, 104, 105 :: int]) \<le> 6 + 0
   \<and> has_shape (replicate 3 (replicate 6 (0 :: 32 word))) 3 6
   \<and> (\<exists>M'. tally_read \<lparr>minrdlen = 4, maxrdlen = 6, max5mis = 1, numproc = 1\<rparr> 100
              (replicate 3 (replicate 6 0))
              \<lparr>is_reverse = True, positions = [100, 101, 102, 103, 104, 105],
                length_nmis = (6, 0)\<rparr> = Inr M'
            \<and> has_shape M' 3 6)"
proof -
  let ?cfg = "\<lparr>minrdlen = 4, maxrdlen = 6, max5mis = 1, numproc = 1\<rparr>"
  let ?rd = "\<lparr>is_reverse = True, positions = [100, 101, 102, 103, 104, 105], length_nmis = (6, 0)\<rparr>"
  let ?Z = "replicate 3 (replicate 6 0) :: tally"
  have ln: "read_length_nmis ?rd = (6, 0)" by (simp add: read_length_nmis_def)
  have off: "offset_to_gcoord ?rd 100 = Some 5"
    by (simp add: offset_to_gcoord_def py_next_def)
  have shape: "has_shape ?Z (nat (maxrdlen ?cfg + 1 - minrdlen ?cfg)) (nat (maxrdlen ?cfg))"
    by (simp add: has_shape_def list_all_length)
  have "\<exists>M'. tally_read ?cfg 100 ?Z ?rd = Inr M'
      \<and> has_shape M' (nat (maxrdlen ?cfg + 1 - minrdlen ?cfg)) (nat (maxrdlen ?cfg))"
    using tally_write_in_bounds [OF ln _ _ _ off _ _ shape] by simp
  then show ?thesis
    using off shape by simp
qed

subsection \<open>Properties of the sum of matrices\<close>

lemma map2_add_commute:
  fixes xs ys :: "'a::ab_semigroup_add list"
  shows "map2 (+) xs ys = map2 (+) ys xs"
  by (induction xs ys rule: list_induct2') (simp_all add: add.commute)

lemma map2_add_assoc:
  fixes xs ys zs :: "'a::ab_semigroup_add list"
  shows "map2 (+) (map2 (+) xs ys) zs = map2 (+) xs (map2 (+) ys zs)"
proof (induction xs arbitrary: ys zs)
  case Nil
  then show ?case by simp
next
  case (Cons x xs)
  then show ?case by (cases ys; cases zs) (simp_all add: add.assoc)
qed

lemma ndarray_add_commute: "ndarray_add A B = ndarray_add B A"
  unfolding ndarray_add_def
  by (induction A B rule: list_induct2') (simp_all add: map2_add_commute)

lemma ndarray_add_assoc: "ndarray_add (ndarray_add A B) C = ndarray_add A (ndarray_add B C)"
  unfolding ndarray_add_def
proof (induction A arbitrary: B C)
  case Nil
  then show ?case by simp
next
  case (Cons a A)
  then show ?case by (cases B; cases C) (simp_all add: map2_add_assoc)
qed

lemma broadcast_zero: "map (map (\<lambda>x. 0 + x)) (X :: tally) = X"
  by (simp add: map_idI)

lemma py_add_swap: "py_add (py_add v X) Y = py_add (py_add v Y) X"
proof (cases v)
  case IntZero
  then show ?thesis by (simp only: py_add.simps broadcast_zero ndarray_add_commute [of X Y])
next
  case (NdArray A)
  have "ndarray_add (ndarray_add A X) Y = ndarray_add A (ndarray_add X Y)"
    by (rule ndarray_add_assoc)
  also have "\<dots> = ndarray_add A (ndarray_add Y X)"
    by (simp only: ndarray_add_commute [of X Y])
  also have "\<dots> = ndarray_add (ndarray_add A Y) X"
    by (rule ndarray_add_assoc [symmetric])
  finally show ?thesis using NdArray by simp
qed

lemma py_sum_permute:
  assumes "mset Ms' = mset Ms"
  shows "py_sum Ms' = py_sum Ms"
proof -
  have "fold (\<lambda>M v. py_add v M) Ms' = fold (\<lambda>M v. py_add v M) Ms"
    by (rule fold_multiset_equiv) (simp_all add: fun_eq_iff py_add_swap assms)
  then show ?thesis by (simp add: py_sum_def foldl_conv_fold)
qed

subsection \<open>Properties of argmax\<close>

lemma is_first_max_iff:
  "is_first_max xs i \<longleftrightarrow>
     i < length xs \<and> (\<forall>j<length xs. xs ! j \<le> xs ! i) \<and> (\<forall>j<i. xs ! j < xs ! i)"
  by (auto simp: is_first_max_def list_all_length)

lemma is_first_max_unique:
  assumes "is_first_max xs i" "is_first_max xs j"
  shows "i = j"
proof (rule ccontr)
  assume "i \<noteq> j"
  then consider "i < j" | "j < i" by linarith
  then show False
  proof cases
    case 1
    then have "xs ! i < xs ! j" using assms(2) by (simp add: is_first_max_iff)
    moreover have "xs ! j \<le> xs ! i" using assms by (simp add: is_first_max_iff)
    ultimately show False by simp
  next
    case 2
    then have "xs ! j < xs ! i" using assms(1) by (simp add: is_first_max_iff)
    moreover have "xs ! i \<le> xs ! j" using assms by (simp add: is_first_max_iff)
    ultimately show False by simp
  qed
qed

lemma argmax_scan_first_max:
  assumes "besti < length pre" "pre ! besti = best"
    and "\<forall>j<length pre. pre ! j \<le> best" "\<forall>j<besti. pre ! j < best"
  shows "is_first_max (pre @ xs) (argmax_scan xs (length pre) best besti)"
  using assms
proof (induction xs arbitrary: pre best besti)
  case Nil
  then show ?case by (simp add: is_first_max_iff)
next
  case (Cons x xs)
  show ?case
  proof (cases "best < x")
    case True
    have "is_first_max ((pre @ [x]) @ xs) (argmax_scan xs (length (pre @ [x])) x (length pre))"
    proof (rule Cons.IH)
      show "length pre < length (pre @ [x])" by simp
      show "(pre @ [x]) ! length pre = x" by simp
      show "\<forall>j<length (pre @ [x]). (pre @ [x]) ! j \<le> x"
        using Cons.prems(3) True by (fastforce simp: nth_append less_Suc_eq)
      show "\<forall>j<length pre. (pre @ [x]) ! j < x"
        using Cons.prems(3) True by (fastforce simp: nth_append)
    qed
    then show ?thesis using True by simp
  next
    case False
    have "is_first_max ((pre @ [x]) @ xs) (argmax_scan xs (length (pre @ [x])) best besti)"
    proof (rule Cons.IH)
      show "besti < length (pre @ [x])" using Cons.prems(1) by simp
      show "(pre @ [x]) ! besti = best" using Cons.prems(1,2) by (simp add: nth_append)
      show "\<forall>j<length (pre @ [x]). (pre @ [x]) ! j \<le> best"
        using Cons.prems(3) False by (auto simp: nth_append less_Suc_eq)
      show "\<forall>j<besti. (pre @ [x]) ! j < best"
        using Cons.prems(1,4) by (auto simp: nth_append)
    qed
    then show ?thesis using False by simp
  qed
qed

lemma np_argmax_first_max:
  assumes "xs \<noteq> []"
  shows "\<exists>i. np_argmax xs = Inr i \<and> is_first_max xs i"
proof -
  from assms obtain x rest where xs: "xs = x # rest" by (cases xs) auto
  have "is_first_max ([x] @ rest) (argmax_scan rest (length [x]) x 0)"
    by (rule argmax_scan_first_max) simp_all
  then show ?thesis by (simp add: xs np_argmax_def)
qed

lemma np_argmax_eqI:
  assumes "is_first_max xs i"
  shows "np_argmax xs = Inr i"
proof -
  have "xs \<noteq> []" using assms by (auto simp: is_first_max_iff)
  from np_argmax_first_max [OF this] obtain j where "np_argmax xs = Inr j" "is_first_max xs j"
    by blast
  with assms show ?thesis using is_first_max_unique by blast
qed

lemma np_argmax_empty: "np_argmax [] = Inl ValueError"
  by (simp add: np_argmax_def)

subsection \<open>Properties of the full cross-correlation\<close>

lemma correlate_at_sum:
  "correlate_at a v k =
     (\<Sum>n | n < length v \<and> length v - 1 \<le> n + k \<and> n + k - (length v - 1) < length a.
        a ! (n + k - (length v - 1)) * v ! n)"
proof -
  let ?P = "\<lambda>n. length v - 1 \<le> n + k \<and> n + k - (length v - 1) < length a"
  let ?g = "\<lambda>n. a ! (n + k - (length v - 1)) * v ! n"
  have "correlate_at a v k = (\<Sum>n\<in>{0..<length v}. if ?P n then ?g n else 0)"
    unfolding correlate_at_def by (simp add: interv_sum_list_conv_sum_set_nat)
  also have "\<dots> = sum ?g {n \<in> {0..<length v}. ?P n}"
    by (rule sum.inter_filter [symmetric]) simp
  also have "{n \<in> {0..<length v}. ?P n} = {n. n < length v \<and> ?P n}" by auto
  finally show ?thesis .
qed

text \<open>Lags at and above the middle: the first vector is shifted left by e.\<close>

lemma correlate_at_upper:
  assumes "length a = L" "length v = L" "e < L"
  shows "correlate_at a v (L - 1 + e) = (\<Sum>n<L - e. a ! (n + e) * v ! n)"
proof -
  have set_eq: "{n. n < length v \<and> length v - 1 \<le> n + (L - 1 + e)
                  \<and> n + (L - 1 + e) - (length v - 1) < length a} = {..<L - e}"
    using assms by auto
  have "correlate_at a v (L - 1 + e) =
      (\<Sum>n<L - e. a ! (n + (L - 1 + e) - (length v - 1)) * v ! n)"
    unfolding correlate_at_sum set_eq ..
  also have "\<dots> = (\<Sum>n<L - e. a ! (n + e) * v ! n)"
    using assms by (intro sum.cong) auto
  finally show ?thesis .
qed

text \<open>Lags below the middle: the second vector is shifted left by e.\<close>

lemma correlate_at_lower:
  assumes "length a = L" "length v = L" "e < L"
  shows "correlate_at a v (L - 1 - e) = (\<Sum>n<L - e. a ! n * v ! (n + e))"
proof -
  have set_eq: "{n. n < length v \<and> length v - 1 \<le> n + (L - 1 - e)
                  \<and> n + (L - 1 - e) - (length v - 1) < length a} = {e..<L}"
    using assms by auto
  have "correlate_at a v (L - 1 - e) =
      (\<Sum>n\<in>{e..<L}. a ! (n + (L - 1 - e) - (length v - 1)) * v ! n)"
    unfolding correlate_at_sum set_eq ..
  also have "\<dots> = (\<Sum>n\<in>{e..<L}. a ! (n - e) * v ! n)"
    using assms by (intro sum.cong) auto
  also have "\<dots> = (\<Sum>n\<in>{0 + e..<(L - e) + e}. a ! (n - e) * v ! n)"
    using assms by simp
  also have "\<dots> = (\<Sum>n\<in>{0..<L - e}. a ! (n + e - e) * v ! (n + e))"
    by (rule sum.shift_bounds_nat_ivl)
  also have "\<dots> = (\<Sum>n<L - e. a ! n * v ! (n + e))"
    by (simp add: lessThan_atLeast0)
  finally show ?thesis .
qed

text \<open>A sequence that is not all zero correlates with a shifted copy of itself
  strictly less than with itself.\<close>

lemma shifted_product_less:
  fixes f :: "nat \<Rightarrow> int"
  assumes "0 < e" "\<exists>n<L. f n \<noteq> 0"
  shows "(\<Sum>n<L - e. f (n + e) * f n) < (\<Sum>n<L. (f n)\<^sup>2)"
proof (rule ccontr)
  assume "\<not> ?thesis"
  then have ge: "(\<Sum>n<L. (f n)\<^sup>2) \<le> (\<Sum>n<L - e. f (n + e) * f n)" by simp
  let ?S = "\<Sum>n<L - e. f (n + e) * f n"
  let ?D = "\<Sum>n<L - e. (f (n + e) - f n)\<^sup>2"
  have e_less: "e < L"
  proof (rule ccontr)
    assume "\<not> e < L"
    then have "?S = 0" by simp
    moreover from assms(2) obtain n where n: "n < L" "f n \<noteq> 0" by blast
    have "0 < (\<Sum>n<L. (f n)\<^sup>2)"
    proof -
      have "(f n)\<^sup>2 \<le> (\<Sum>n<L. (f n)\<^sup>2)"
        using n(1) by (intro member_le_sum) auto
      moreover have "0 < (f n)\<^sup>2" using n(2) by simp
      ultimately show ?thesis by linarith
    qed
    ultimately show False using ge by simp
  qed
  have ident: "?D + 2 * ?S = (\<Sum>n<L - e. (f (n + e))\<^sup>2) + (\<Sum>n<L - e. (f n)\<^sup>2)"
    by (simp add: power2_diff sum.distrib sum_subtractf sum_distrib_left algebra_simps)
  have shift: "(\<Sum>n<L - e. (f (n + e))\<^sup>2) = (\<Sum>n\<in>{e..<L}. (f n)\<^sup>2)"
  proof -
    have "(\<Sum>n\<in>{0 + e..<(L - e) + e}. (f n)\<^sup>2) = (\<Sum>n\<in>{0..<L - e}. (f (n + e))\<^sup>2)"
      by (rule sum.shift_bounds_nat_ivl)
    then show ?thesis using e_less by (simp add: lessThan_atLeast0)
  qed
  have split1: "(\<Sum>n<L. (f n)\<^sup>2) = (\<Sum>n<e. (f n)\<^sup>2) + (\<Sum>n\<in>{e..<L}. (f n)\<^sup>2)"
    using e_less sum.atLeastLessThan_concat [of 0 e L "\<lambda>n. (f n)\<^sup>2"]
    by (simp add: lessThan_atLeast0)
  have part: "(\<Sum>n<L - e. (f n)\<^sup>2) \<le> (\<Sum>n<L. (f n)\<^sup>2)"
    by (intro sum_mono2) auto
  have Dnn: "0 \<le> ?D" by (intro sum_nonneg) simp
  have Hnn: "0 \<le> (\<Sum>n<e. (f n)\<^sup>2)" by (intro sum_nonneg) simp
  have "?D + (\<Sum>n<e. (f n)\<^sup>2) \<le> 0"
    using ident shift split1 part ge by linarith
  with Dnn Hnn have D0: "?D = 0" and H0: "(\<Sum>n<e. (f n)\<^sup>2) = 0" by linarith+
  have head: "f n = 0" if "n < e" for n
  proof -
    have "\<forall>n\<in>{..<e}. (f n)\<^sup>2 = 0"
      using H0 by (subst (asm) sum_nonneg_eq_0_iff) auto
    with that show ?thesis by simp
  qed
  have step: "f (n + e) = f n" if "n < L - e" for n
  proof -
    have "\<forall>n\<in>{..<L - e}. (f (n + e) - f n)\<^sup>2 = 0"
      using D0 by (subst (asm) sum_nonneg_eq_0_iff) auto
    with that show ?thesis by simp
  qed
  have "f n = 0" if "n < L" for n
    using that
  proof (induction n rule: less_induct)
    case (less n)
    show ?case
    proof (cases "n < e")
      case True
      then show ?thesis by (rule head)
    next
      case False
      then have "n - e < L - e" "n - e < n" "n - e < L" using less.prems assms(1) by auto
      then have "f (n - e + e) = f (n - e)" "f (n - e) = 0"
        using step less.IH by auto
      then show ?thesis using False by simp
    qed
  qed
  with assms(2) show False by blast
qed

lemma autocorrelation_peak:
  assumes "length a = L" "k < 2 * L - 1" "k \<noteq> L - 1" "\<exists>n<L. a ! n \<noteq> 0"
  shows "correlate_at a a k < correlate_at a a (L - 1)"
proof -
  have L: "0 < L" using assms(4) by auto
  have mid: "correlate_at a a (L - 1) = (\<Sum>n<L. (a ! n)\<^sup>2)"
    using correlate_at_upper [OF assms(1) assms(1), of 0] L by (simp add: power2_eq_square)
  show ?thesis
  proof (cases "L - 1 < k")
    case True
    define e where "e = k - (L - 1)"
    have e: "0 < e" "e < L" "k = L - 1 + e" using True assms(2) by (auto simp: e_def)
    have "correlate_at a a k = (\<Sum>n<L - e. a ! (n + e) * a ! n)"
      unfolding e(3) using assms(1) assms(1) e(2) by (rule correlate_at_upper)
    also have "\<dots> < (\<Sum>n<L. (a ! n)\<^sup>2)"
      using e(1) assms(4) by (rule shifted_product_less)
    finally show ?thesis unfolding mid .
  next
    case False
    define e where "e = L - 1 - k"
    have e: "0 < e" "e < L" "k = L - 1 - e" using False assms(3) L by (auto simp: e_def)
    have "correlate_at a a k = (\<Sum>n<L - e. a ! n * a ! (n + e))"
      unfolding e(3) using assms(1) assms(1) e(2) by (rule correlate_at_lower)
    also have "\<dots> = (\<Sum>n<L - e. a ! (n + e) * a ! n)"
      by (simp add: mult.commute)
    also have "\<dots> < (\<Sum>n<L. (a ! n)\<^sup>2)"
      using e(1) assms(4) by (rule shifted_product_less)
    finally show ?thesis unfolding mid .
  qed
qed

subsection \<open>Properties of resolve_offsets\<close>

lemma collect_Inr:
  assumes "\<forall>r\<in>set rs. \<exists>y. r = Inr y"
  shows "\<exists>ys. collect rs = Inr ys \<and> length ys = length rs \<and> (\<forall>i<length rs. rs ! i = Inr (ys ! i))"
  using assms
proof (induction rs)
  case Nil
  then show ?case by simp
next
  case (Cons r rs)
  from Cons.prems obtain y where y: "r = Inr y" by auto
  from Cons obtain ys where ys: "collect rs = Inr ys" "length ys = length rs"
    "\<forall>i<length rs. rs ! i = Inr (ys ! i)" by auto
  have "collect (r # rs) = Inr (y # ys)" by (simp add: y ys(1))
  moreover have "\<forall>i<length (r # rs). (r # rs) ! i = Inr ((y # ys) ! i)"
    using y ys(3) by (auto simp: nth_Cons split: nat.splits)
  ultimately show ?case using ys(2) by auto
qed

lemma np_correlate_full_equal_length:
  assumes "length a = L" "length v = L" "0 < L"
  shows "np_correlate_full a v = Inr (map (correlate_at a v) [0..<2 * L - 1])"
proof -
  have "a \<noteq> []" "v \<noteq> []" using assms by auto
  moreover have "length a + length v - 1 = 2 * L - 1" using assms by simp
  ultimately show ?thesis by (simp add: np_correlate_full_def)
qed

lemma row_offset_ok:
  assumes "length row = L" "length master = L" "0 < L"
  shows "\<exists>lag. np_argmax (map (correlate_at row master) [0..<2 * L - 1]) = Inr lag
           \<and> is_first_max (map (correlate_at row master) [0..<2 * L - 1]) lag
           \<and> row_offset cfg mo master row = Inr (int mo + int lag + 1 - maxrdlen cfg)"
proof -
  let ?c = "map (correlate_at row master) [0..<2 * L - 1]"
  have "?c \<noteq> []" using assms(3) by simp
  from np_argmax_first_max [OF this] obtain lag where
    lag: "np_argmax ?c = Inr lag" "is_first_max ?c lag" by blast
  have "row_offset cfg mo master row = Inr (int mo + int lag + 1 - maxrdlen cfg)"
    unfolding row_offset_def np_correlate_full_equal_length [OF assms]
    by (simp only: lag(1) sum.case)
  with lag show ?thesis by blast
qed

lemma resolve_offsets_rows:
  assumes "has_shape M r L" "0 < r" "0 < L"
  shows "\<exists>mi mo offs.
      np_argmax (map sum_list M) = Inr mi \<and> is_first_max (map sum_list M) mi
    \<and> np_argmax (M ! mi) = Inr mo \<and> is_first_max (M ! mi) mo
    \<and> resolve_offsets cfg M = Inr offs \<and> length offs = r
    \<and> (\<forall>i<r. \<exists>lag.
          np_correlate_full (M ! i) (M ! mi) = Inr (map (correlate_at (M ! i) (M ! mi)) [0..<2 * L - 1])
        \<and> np_argmax (map (correlate_at (M ! i) (M ! mi)) [0..<2 * L - 1]) = Inr lag
        \<and> is_first_max (map (correlate_at (M ! i) (M ! mi)) [0..<2 * L - 1]) lag
        \<and> offs ! i = int mo + int lag + 1 - maxrdlen cfg)"
proof -
  have len: "length M = r" using assms(1) by (simp add: has_shape_def)
  have rowlen: "length (M ! i) = L" if "i < r" for i
    using assms(1) that by (rule has_shape_nth)
  have "map sum_list M \<noteq> []" using len assms(2) by auto
  from np_argmax_first_max [OF this] obtain mi where
    mi: "np_argmax (map sum_list M) = Inr mi" "is_first_max (map sum_list M) mi" by blast
  have mi_r: "mi < r" using mi(2) len by (simp add: is_first_max_iff)
  let ?master = "M ! mi"
  have mlen: "length ?master = L" using mi_r by (rule rowlen)
  then have "?master \<noteq> []" using assms(3) by auto
  from np_argmax_first_max [OF this] obtain mo where
    mo: "np_argmax ?master = Inr mo" "is_first_max ?master mo" by blast
  let ?rs = "map (row_offset cfg mo ?master) M"
  have "\<forall>x\<in>set ?rs. \<exists>y. x = Inr y"
  proof
    fix x assume "x \<in> set ?rs"
    then obtain i where i: "i < r" "x = row_offset cfg mo ?master (M ! i)"
      using len by (auto simp: in_set_conv_nth)
    from row_offset_ok [OF rowlen [OF i(1)] mlen assms(3), of cfg mo] i(2)
    show "\<exists>y. x = Inr y" by auto
  qed
  from collect_Inr [OF this] obtain offs where offs:
    "collect ?rs = Inr offs" "length offs = length ?rs"
    "\<forall>i<length ?rs. ?rs ! i = Inr (offs ! i)" by blast
  have res: "resolve_offsets cfg M = Inr offs"
    by (simp add: resolve_offsets_def mi(1) mo(1) offs(1))
  have rows: "\<exists>lag.
          np_correlate_full (M ! i) ?master = Inr (map (correlate_at (M ! i) ?master) [0..<2 * L - 1])
        \<and> np_argmax (map (correlate_at (M ! i) ?master) [0..<2 * L - 1]) = Inr lag
        \<and> is_first_max (map (correlate_at (M ! i) ?master) [0..<2 * L - 1]) lag
        \<and> offs ! i = int mo + int lag + 1 - maxrdlen cfg" if "i < r" for i
  proof -
    from row_offset_ok [OF rowlen [OF that] mlen assms(3), of cfg mo] obtain lag where lag:
      "np_argmax (map (correlate_at (M ! i) ?master) [0..<2 * L - 1]) = Inr lag"
      "is_first_max (map (correlate_at (M ! i) ?master) [0..<2 * L - 1]) lag"
      "row_offset cfg mo ?master (M ! i) = Inr (int mo + int lag + 1 - maxrdlen cfg)"
      by blast
    have "?rs ! i = Inr (offs ! i)" using offs(3) that len by simp
    then have "offs ! i = int mo + int lag + 1 - maxrdlen cfg"
      using lag(3) that len by simp
    with lag(1,2) np_correlate_full_equal_length [OF rowlen [OF that] mlen assms(3)]
    show ?thesis by blast
  qed
  from mi mo res offs(2) len rows show ?thesis by auto
qed

subsection \<open>The aggregate and the offsets: the claims\<close>

text \<open>
  C6. The sum of the per-unit matrices does not depend on the order in which they are
  added: for matrices of one shape, any permutation of the list gives the same aggregate,
  cell for cell.
\<close>

theorem sum_order_irrelevant:
  assumes "list_all (\<lambda>M. has_shape M r c) Ms" and "mset Ms' = mset Ms"
  shows "py_sum Ms' = py_sum Ms \<and> astype_float64 (py_sum Ms') = astype_float64 (py_sum Ms)"
  using py_sum_permute [OF assms(2)] by simp

theorem sum_order_irrelevant_witness:
  "list_all (\<lambda>M. has_shape M 2 2) [[[1, 2], [3, 4]], [[10, 20], [30, 40]], [[4294967295, 0], [0, 7 :: 32 word]]]
   \<and> py_sum [[[4294967295, 0], [0, 7]], [[1, 2], [3, 4]], [[10, 20], [30, 40]]]
     = py_sum [[[1, 2], [3, 4]], [[10, 20], [30, 40]], [[4294967295, 0], [0, 7]]]"
proof -
  let ?Ms = "[[[1, 2], [3, 4]], [[10, 20], [30, 40]], [[4294967295, 0], [0, 7 :: 32 word]]]"
  let ?Ms' = "[[[4294967295, 0], [0, 7]], [[1, 2], [3, 4]], [[10, 20], [30, 40 :: 32 word]]]"
  have sh: "list_all (\<lambda>M. has_shape M 2 2) ?Ms" by (simp add: has_shape_def)
  have pm: "mset ?Ms' = mset ?Ms" by (simp add: add.commute)
  from sum_order_irrelevant [OF sh pm] sh show ?thesis by blast
qed

lemma sum_example:
  "py_sum [[[1, 2], [3, 4]], [[10, 20], [30, 40]], [[4294967295, 0], [0, 7]]]
     = NdArray [[10, 22], [33, 51]]"
  by (simp add: py_sum_def ndarray_add_def)


lemma resolve_example:
  "resolve_offsets \<lparr>minrdlen = 3, maxrdlen = 5, max5mis = 1, numproc = 1\<rparr>
     [[0, 0, 5, 5, 0], [0, 0, 5, 5, 0], [0, 0, 0, 0, 0], [0, 3, 3, 0, 0], [0, 0, 0, 9, 1]]
   = Inr [2, 2, - 2, 1, 3]"
  by code_simp


lemma correlate_at_zero_row: "correlate_at (replicate L 0) v k = 0"
  unfolding correlate_at_sum
proof (rule sum.neutral, rule ballI)
  fix n
  assume "n \<in> {n. n < length v \<and> length v - 1 \<le> n + k
                    \<and> n + k - (length v - 1) < length (replicate L (0::int))}"
  then have "n + k - (length v - 1) < L" by (simp only: mem_Collect_eq length_replicate)
  then have "replicate L (0::int) ! (n + k - (length v - 1)) = 0" by (rule nth_replicate)
  then show "replicate L 0 ! (n + k - (length v - 1)) * v ! n = 0"
    by (simp only: mult_zero_left)
qed

lemma np_argmax_zeros: "0 < n \<Longrightarrow> np_argmax (replicate n 0) = Inr 0"
  by (rule np_argmax_eqI) (simp add: is_first_max_iff)

text \<open>
  C9. A row of zeros does not make the correlation step fail: its full cross-correlation
  against the master row is the vector of 2 * maxrdlen - 1 zeros, whose argmax is the
  first lag index 0, and its offset is master_offset + 1 - maxrdlen.
\<close>

theorem zero_row_offset:
  assumes "has_shape M r L" "0 < r" "0 < L" "maxrdlen cfg = int L"
  shows "\<exists>mi mo offs.
      np_argmax (map sum_list M) = Inr mi \<and> np_argmax (M ! mi) = Inr mo
    \<and> resolve_offsets cfg M = Inr offs \<and> length offs = r
    \<and> (\<forall>i<r. M ! i = replicate L 0 \<longrightarrow>
          np_correlate_full (M ! i) (M ! mi) = Inr (replicate (2 * L - 1) 0)
        \<and> np_argmax (replicate (2 * L - 1) 0) = Inr 0
        \<and> offs ! i = int mo + 1 - maxrdlen cfg)"
proof -
  from resolve_offsets_rows [OF assms(1-3), of cfg] obtain mi mo offs where
    mi: "np_argmax (map sum_list M) = Inr mi"
    and mo: "np_argmax (M ! mi) = Inr mo"
    and res: "resolve_offsets cfg M = Inr offs" "length offs = r"
    and rows: "\<forall>i<r. \<exists>lag.
          np_correlate_full (M ! i) (M ! mi) = Inr (map (correlate_at (M ! i) (M ! mi)) [0..<2 * L - 1])
        \<and> np_argmax (map (correlate_at (M ! i) (M ! mi)) [0..<2 * L - 1]) = Inr lag
        \<and> is_first_max (map (correlate_at (M ! i) (M ! mi)) [0..<2 * L - 1]) lag
        \<and> offs ! i = int mo + int lag + 1 - maxrdlen cfg"
    by blast
  have az: "np_argmax (replicate (2 * L - 1) (0::int)) = Inr 0"
    using assms(3) by (intro np_argmax_zeros) simp
  have "np_correlate_full (M ! i) (M ! mi) = Inr (replicate (2 * L - 1) 0)
        \<and> np_argmax (replicate (2 * L - 1) 0) = Inr 0
        \<and> offs ! i = int mo + 1 - maxrdlen cfg"
    if i: "i < r" and z: "M ! i = replicate L 0" for i
  proof -
    let ?c = "map (correlate_at (M ! i) (M ! mi)) [0..<2 * L - 1]"
    have c: "?c = replicate (2 * L - 1) 0"
      unfolding z by (intro nth_equalityI) (simp_all add: correlate_at_zero_row)
    from rows i obtain lag where lag:
      "np_correlate_full (M ! i) (M ! mi) = Inr ?c" "np_argmax ?c = Inr lag"
      "offs ! i = int mo + int lag + 1 - maxrdlen cfg"
      by blast
    have "lag = 0" using lag(2) az unfolding c by simp
    with lag(1,3) az show ?thesis unfolding c by simp
  qed
  with mi mo res show ?thesis by blast
qed

theorem zero_row_offset_witness:
  "has_shape [[0, 2, 1], [0, 0, 0 :: int]] 2 3
   \<and> [[0, 2, 1], [0, 0, 0 :: int]] ! 1 = replicate 3 0
   \<and> resolve_offsets \<lparr>minrdlen = 2, maxrdlen = 3, max5mis = 1, numproc = 1\<rparr>
           [[0, 2, 1], [0, 0, 0]] = Inr [1, - 1]"
proof -
  let ?M = "[[0, 2, 1], [0, 0, 0 :: int]]"
  let ?cfg = "\<lparr>minrdlen = 2, maxrdlen = 3, max5mis = 1, numproc = 1\<rparr>"
  have sh: "has_shape ?M 2 3" by (simp add: has_shape_def)
  have z: "?M ! 1 = replicate 3 0" by (simp add: numeral_eq_Suc)
  have "maxrdlen ?cfg = int 3" by simp
  from zero_row_offset [OF sh _ _ this] obtain mi mo offs where
    "np_argmax (map sum_list ?M) = Inr mi" "np_argmax (?M ! mi) = Inr mo"
    "resolve_offsets ?cfg ?M = Inr offs" "length offs = 2"
    "\<forall>i<2. ?M ! i = replicate 3 0 \<longrightarrow> offs ! i = int mo + 1 - maxrdlen ?cfg"
    by auto
  moreover have "np_argmax (map sum_list ?M) = Inr 0" by code_simp
  moreover have "np_argmax (?M ! 0) = Inr 1" by code_simp
  ultimately have "offs ! 1 = - 1" "resolve_offsets ?cfg ?M = Inr offs"
    using z by auto
  moreover have "resolve_offsets ?cfg ?M = Inr [1, - 1]" by code_simp
  ultimately show ?thesis using sh z by simp
qed

lemma autocorrelation_argmax:
  assumes "length a = L" "\<exists>n<L. a ! n \<noteq> 0"
  shows "is_first_max (map (correlate_at a a) [0..<2 * L - 1]) (L - 1)"
proof -
  have L: "0 < L" using assms(2) by auto
  let ?c = "map (correlate_at a a) [0..<2 * L - 1]"
  have less: "?c ! j < ?c ! (L - 1)" if "j < 2 * L - 1" "j \<noteq> L - 1" for j
    using autocorrelation_peak [OF assms(1) that assms(2)] that(1) L by simp
  have "L - 1 < length ?c" using L by simp
  moreover have "\<forall>j<length ?c. ?c ! j \<le> ?c ! (L - 1)"
  proof (intro allI impI)
    fix j assume "j < length ?c"
    then have j: "j < 2 * L - 1" by simp
    show "?c ! j \<le> ?c ! (L - 1)"
    proof (cases "j = L - 1")
      case True
      then show ?thesis by simp
    next
      case False
      with less [OF j] show ?thesis by simp
    qed
  qed
  moreover have "\<forall>j<L - 1. ?c ! j < ?c ! (L - 1)"
  proof (intro allI impI)
    fix j assume "j < L - 1"
    then have "j < 2 * L - 1" "j \<noteq> L - 1" by auto
    then show "?c ! j < ?c ! (L - 1)" by (rule less)
  qed
  ultimately show ?thesis unfolding is_first_max_iff by blast
qed

text \<open>
  C4. A row equal to the master row, with at least one nonzero entry, gets exactly
  \<open>master_offset\<close>: the correlation of the row with itself has its first greatest entry
  at lag index maxrdlen - 1, and master_offset + (maxrdlen - 1) + 1 - maxrdlen is
  master_offset.
\<close>

theorem identical_row_offset:
  assumes "has_shape M r L" "0 < r" "0 < L" "maxrdlen cfg = int L"
  shows "\<exists>mi mo offs.
      np_argmax (map sum_list M) = Inr mi \<and> np_argmax (M ! mi) = Inr mo
    \<and> resolve_offsets cfg M = Inr offs \<and> length offs = r
    \<and> (\<forall>i<r. M ! i = M ! mi \<and> (\<exists>n<L. M ! i ! n \<noteq> 0) \<longrightarrow>
          (\<exists>c. np_correlate_full (M ! i) (M ! mi) = Inr c \<and> np_argmax c = Inr (L - 1))
        \<and> offs ! i = int mo)"
proof -
  from resolve_offsets_rows [OF assms(1-3), of cfg] obtain mi mo offs where
    mi: "np_argmax (map sum_list M) = Inr mi"
    and mo: "np_argmax (M ! mi) = Inr mo"
    and res: "resolve_offsets cfg M = Inr offs" "length offs = r"
    and rows: "\<forall>i<r. \<exists>lag.
          np_correlate_full (M ! i) (M ! mi) = Inr (map (correlate_at (M ! i) (M ! mi)) [0..<2 * L - 1])
        \<and> np_argmax (map (correlate_at (M ! i) (M ! mi)) [0..<2 * L - 1]) = Inr lag
        \<and> is_first_max (map (correlate_at (M ! i) (M ! mi)) [0..<2 * L - 1]) lag
        \<and> offs ! i = int mo + int lag + 1 - maxrdlen cfg"
    by blast
  have "(\<exists>c. np_correlate_full (M ! i) (M ! mi) = Inr c \<and> np_argmax c = Inr (L - 1))
        \<and> offs ! i = int mo"
    if i: "i < r" and same: "M ! i = M ! mi" and nz: "\<exists>n<L. M ! i ! n \<noteq> 0" for i
  proof -
    let ?c = "map (correlate_at (M ! i) (M ! mi)) [0..<2 * L - 1]"
    have ilen: "length (M ! i) = L" using assms(1) i by (rule has_shape_nth)
    from rows i obtain lag where lag:
      "np_correlate_full (M ! i) (M ! mi) = Inr ?c" "np_argmax ?c = Inr lag"
      "is_first_max ?c lag" "offs ! i = int mo + int lag + 1 - maxrdlen cfg"
      by blast
    have "is_first_max (map (correlate_at (M ! i) (M ! i)) [0..<2 * L - 1]) (L - 1)"
      using ilen nz by (rule autocorrelation_argmax)
    then have "is_first_max ?c (L - 1)" using same by simp
    with lag(3) have l: "lag = L - 1" by (rule is_first_max_unique)
    have "offs ! i = int mo" using lag(4) assms(3,4) unfolding l by simp
    moreover have "np_argmax ?c = Inr (L - 1)" using lag(2) unfolding l .
    ultimately show ?thesis using lag(1) by blast
  qed
  with mi mo res show ?thesis by blast
qed

theorem identical_row_offset_witness:
  "has_shape [[0, 0, 5, 5, 0], [0, 0, 5, 5, 0 :: int]] 2 5
   \<and> np_argmax (map sum_list [[0, 0, 5, 5, 0], [0, 0, 5, 5, 0]]) = Inr 0
   \<and> np_argmax ([[0, 0, 5, 5, 0], [0, 0, 5, 5, 0]] ! 0) = Inr 2
   \<and> (\<exists>offs. resolve_offsets \<lparr>minrdlen = 4, maxrdlen = 5, max5mis = 1, numproc = 1\<rparr>
                 [[0, 0, 5, 5, 0], [0, 0, 5, 5, 0]] = Inr offs
             \<and> offs ! 0 = 2 \<and> offs ! 1 = 2)"
proof -
  let ?M = "[[0, 0, 5, 5, 0], [0, 0, 5, 5, 0 :: int]]"
  let ?cfg = "\<lparr>minrdlen = 4, maxrdlen = 5, max5mis = 1, numproc = 1\<rparr>"
  have sh: "has_shape ?M 2 5" by (simp add: has_shape_def)
  have mi0: "np_argmax (map sum_list ?M) = Inr 0" by code_simp
  have mo2: "np_argmax (?M ! 0) = Inr 2" by code_simp
  have nz: "\<exists>n<5. [0, 0, 5, 5, 0 :: int] ! n \<noteq> 0"
    by (intro exI [of _ 2]) simp
  have cf: "maxrdlen ?cfg = int 5" by simp
  have "\<exists>mi mo offs.
      np_argmax (map sum_list ?M) = Inr mi \<and> np_argmax (?M ! mi) = Inr mo
    \<and> resolve_offsets ?cfg ?M = Inr offs \<and> length offs = 2
    \<and> (\<forall>i<2. ?M ! i = ?M ! mi \<and> (\<exists>n<5. ?M ! i ! n \<noteq> 0) \<longrightarrow>
          (\<exists>c. np_correlate_full (?M ! i) (?M ! mi) = Inr c \<and> np_argmax c = Inr (5 - 1))
        \<and> offs ! i = int mo)"
    by (rule identical_row_offset [OF sh _ _ cf]) simp_all
  then obtain mi mo offs where w:
    "np_argmax (map sum_list ?M) = Inr mi" "np_argmax (?M ! mi) = Inr mo"
    "resolve_offsets ?cfg ?M = Inr offs"
    "\<forall>i<2. ?M ! i = ?M ! mi \<and> (\<exists>n<5. ?M ! i ! n \<noteq> 0) \<longrightarrow>
          (\<exists>c. np_correlate_full (?M ! i) (?M ! mi) = Inr c \<and> np_argmax c = Inr (5 - 1))
        \<and> offs ! i = int mo"
    by blast
  have "mi = 0" using w(1) mi0 by simp
  then have "mo = 2" using w(2) mo2 by simp
  have "offs ! 0 = 2"
    using w(4) [rule_format, of 0] nz \<open>mi = 0\<close> \<open>mo = 2\<close> by simp
  moreover have "offs ! 1 = 2"
    using w(4) [rule_format, of 1] nz \<open>mi = 0\<close> \<open>mo = 2\<close> by simp
  ultimately show ?thesis using sh mi0 mo2 w(3) by blast
qed

subsection \<open>The order of the reads, coordinates and units does not matter\<close>

lemma tally_read_target:
  "tally_read cfg g M rd =
     (case tally_target cfg (g, rd) of None \<Rightarrow> Inr M | Some (i, j) \<Rightarrow> tally_incr M i j)"
  by (simp add: tally_read_def tally_target_def split: prod.splits option.splits)

lemma np_index_less: "np_index i n = Inr r \<Longrightarrow> r < n"
  by (auto simp: np_index_def Let_def split: if_splits)

lemma np_index_error: "np_index i n = Inl e \<Longrightarrow> e = IndexError"
  by (auto simp: np_index_def Let_def split: if_splits)

lemma length_cell_incr [simp]: "length (cell_incr M r c) = length M"
  by (simp add: cell_incr_def)

lemma row_length_cell_incr [simp]: "length (cell_incr M r c ! r') = length (M ! r')"
  by (cases "r < length M"; cases "r' = r") (simp_all add: cell_incr_def list_update_beyond)

lemma cell_incr_commute:
  "cell_incr (cell_incr M r c) r' c' = cell_incr (cell_incr M r' c') r c"
proof (cases "r < length M \<and> r' < length M")
  case False
  then show ?thesis
    by (cases "r = r'") (auto simp: cell_incr_def list_update_swap list_update_beyond)
next
  case True
  show ?thesis
  proof (cases "r = r'")
    case rr: True
    show ?thesis
    proof (cases "c = c'")
      case True
      with rr show ?thesis by simp
    next
      case False
      with rr True show ?thesis
        by (simp add: cell_incr_def list_update_swap)
    qed
  next
    case False
    with True show ?thesis
      by (simp add: cell_incr_def list_update_swap)
  qed
qed

lemma tally_incr_cell:
  "tally_incr M i j =
     (case np_index i (length M) of
        Inl e \<Rightarrow> Inl IndexError
      | Inr r \<Rightarrow>
          (case np_index j (length (M ! r)) of
             Inl e \<Rightarrow> Inl IndexError
           | Inr c \<Rightarrow> Inr (cell_incr M r c)))"
  by (auto simp: tally_incr_def cell_incr_def split: sum.splits dest: np_index_error)

lemma tally_incr_commute:
  "(case tally_incr M i j of Inl e \<Rightarrow> Inl e | Inr M' \<Rightarrow> tally_incr M' i' j') =
   (case tally_incr M i' j' of Inl e \<Rightarrow> Inl e | Inr M' \<Rightarrow> tally_incr M' i j)"
  by (auto simp: tally_incr_cell cell_incr_commute split: sum.splits)

lemma lift_read_Inl [simp]: "lift_read cfg ev (Inl e) = Inl e"
  by (simp add: lift_read_def)

lemma lift_read_Inr [simp]: "lift_read cfg (g, rd) (Inr M) = tally_read cfg g M rd"
  by (simp add: lift_read_def)

lemma lift_read_skip: "tally_target cfg ev = None \<Longrightarrow> lift_read cfg ev s = s"
  by (cases s; cases ev) (simp_all add: tally_read_target)

lemma lift_read_hit:
  "tally_target cfg ev = Some (i, j) \<Longrightarrow>
   lift_read cfg ev s = (case s of Inl e \<Rightarrow> Inl e | Inr M \<Rightarrow> tally_incr M i j)"
  by (cases s; cases ev) (simp_all add: tally_read_target)

lemma lift_read_commute:
  "lift_read cfg e1 (lift_read cfg e2 s) = lift_read cfg e2 (lift_read cfg e1 s)"
proof (cases "tally_target cfg e1")
  case None
  then show ?thesis by (simp add: lift_read_skip)
next
  case s1: (Some t1)
  show ?thesis
  proof (cases "tally_target cfg e2")
    case None
    then show ?thesis by (simp add: lift_read_skip)
  next
    case s2: (Some t2)
    obtain i j where t1: "t1 = (i, j)" by (cases t1)
    obtain i' j' where t2: "t2 = (i', j')" by (cases t2)
    note h1 = lift_read_hit [OF s1 [unfolded t1]]
    note h2 = lift_read_hit [OF s2 [unfolded t2]]
    show ?thesis
    proof (cases s)
      case (Inl e)
      then show ?thesis by simp
    next
      case (Inr M)
      from tally_incr_commute [where M = M and i = i' and j = j' and i' = i and j' = j] show ?thesis
        unfolding h1 h2 Inr by (simp split: sum.splits)
    qed
  qed
qed

lemma fold_lift_read_Inl: "fold (lift_read cfg) evs (Inl e) = Inl e"
  by (induction evs) simp_all

lemma tally_reads_fold:
  "tally_reads cfg g M rds = fold (lift_read cfg) (map (Pair g) rds) (Inr M)"
proof (induction rds arbitrary: M)
  case Nil
  then show ?case by simp
next
  case (Cons rd rds)
  show ?case
  proof (cases "tally_read cfg g M rd")
    case (Inl e)
    then show ?thesis by (simp add: fold_lift_read_Inl)
  next
    case (Inr M')
    then show ?thesis by (simp add: Cons.IH)
  qed
qed

lemma tally_gcoords_fold:
  "tally_gcoords cfg inbams chr str M gs =
     fold (lift_read cfg) (unit_events inbams chr str gs) (Inr M)"
proof (induction gs arbitrary: M)
  case Nil
  then show ?case by (simp add: unit_events_def)
next
  case (Cons g gs)
  show ?case
  proof (cases "tally_reads cfg g M (get_reads inbams chr str g)")
    case (Inl e)
    then show ?thesis
      using tally_reads_fold [of cfg g M "get_reads inbams chr str g"]
      by (simp add: unit_events_def fold_lift_read_Inl)
  next
    case (Inr M')
    then show ?thesis
      using tally_reads_fold [of cfg g M "get_reads inbams chr str g"] Cons.IH [of M']
      by (simp add: unit_events_def)
  qed
qed

lemma unit_events_mset:
  assumes "mset gs' = mset gs"
  shows "mset (unit_events inbams chr str gs') = mset (unit_events inbams chr str gs)"
proof -
  have "mset (unit_events inbams chr str xs) =
      (\<Sum>g\<in>#mset xs. mset (map (Pair g) (get_reads inbams chr str g)))" for xs
    by (induction xs) (simp_all add: unit_events_def)
  then show ?thesis using assms by simp
qed

lemma tally_gcoords_permute:
  assumes "mset gs' = mset gs"
  shows "tally_gcoords cfg inbams chr str M gs' = tally_gcoords cfg inbams chr str M gs"
proof -
  have "fold (lift_read cfg) (unit_events inbams chr str gs')
      = fold (lift_read cfg) (unit_events inbams chr str gs)"
    by (rule fold_multiset_equiv)
       (simp_all add: fun_eq_iff lift_read_commute unit_events_mset [OF assms])
  then show ?thesis by (simp add: tally_gcoords_fold)
qed

lemma map_start_sites_permute:
  assumes "mset (dict_get gd' k) = mset (dict_get gd k)"
  shows "map_start_sites cfg inbams gd' k = map_start_sites cfg inbams gd k"
proof -
  obtain chr str where k: "k = (chr, str)" by (cases k)
  have "tally_gcoords cfg inbams chr str Z (dict_get gd' (chr, str))
      = tally_gcoords cfg inbams chr str Z (dict_get gd (chr, str))" for Z
    using assms unfolding k by (rule tally_gcoords_permute)
  then show ?thesis
    unfolding k map_start_sites_def by (simp split: sum.splits)
qed

lemma tally_read_numproc: "tally_read (cfg\<lparr>numproc := n\<rparr>) g M rd = tally_read cfg g M rd"
  by (simp add: tally_read_def split: prod.splits option.splits)

lemma tally_reads_numproc: "tally_reads (cfg\<lparr>numproc := n\<rparr>) g M rds = tally_reads cfg g M rds"
  by (induction rds arbitrary: M) (simp_all add: tally_read_numproc split: sum.splits)

lemma tally_gcoords_numproc:
  "tally_gcoords (cfg\<lparr>numproc := n\<rparr>) inbams chr str M gs = tally_gcoords cfg inbams chr str M gs"
  by (induction gs arbitrary: M) (simp_all add: tally_reads_numproc split: sum.splits)

lemma map_start_sites_numproc:
  "map_start_sites (cfg\<lparr>numproc := n\<rparr>) inbams gd k = map_start_sites cfg inbams gd k"
  by (simp add: map_start_sites_def tally_gcoords_numproc split: prod.splits sum.splits)

lemma row_offset_numproc: "row_offset (cfg\<lparr>numproc := n\<rparr>) = row_offset cfg"
  by (simp add: fun_eq_iff row_offset_def split: sum.splits)

lemma resolve_offsets_numproc: "resolve_offsets (cfg\<lparr>numproc := n\<rparr>) M = resolve_offsets cfg M"
  unfolding resolve_offsets_def row_offset_numproc ..

lemma collect_Inl_mem: "collect rs = Inl e \<Longrightarrow> Inl e \<in> set rs"
  by (induction rs arbitrary: e) (auto split: sum.splits)

lemma collect_Inr_projr: "collect rs = Inr ts \<Longrightarrow> ts = map projr rs \<and> (\<forall>e. Inl e \<notin> set rs)"
  by (induction rs arbitrary: ts) (auto split: sum.splits)

lemma collect_permute:
  assumes "mset rs' = mset rs"
    and "\<And>e e'. Inl e \<in> set rs \<Longrightarrow> Inl e' \<in> set rs \<Longrightarrow> e = e'"
  shows "(\<exists>e. collect rs' = Inl e \<and> collect rs = Inl e)
       \<or> (\<exists>ts ts'. collect rs' = Inr ts' \<and> collect rs = Inr ts \<and> mset ts' = mset ts)"
proof -
  have sets: "set rs' = set rs" using assms(1) by (rule mset_eq_setD)
  show ?thesis
  proof (cases "collect rs")
    case (Inl e)
    then have e: "Inl e \<in> set rs" by (rule collect_Inl_mem)
    show ?thesis
    proof (cases "collect rs'")
      case l': (Inl e')
      then have "Inl e' \<in> set rs" using collect_Inl_mem sets by blast
      with e have "e' = e" using assms(2) by blast
      with Inl l' show ?thesis by simp
    next
      case (Inr ts')
      then have "Inl e \<notin> set rs'" using collect_Inr_projr by blast
      with e sets show ?thesis by simp
    qed
  next
    case (Inr ts)
    then have ts: "ts = map projr rs" "\<forall>e. Inl e \<notin> set rs" using collect_Inr_projr by blast+
    show ?thesis
    proof (cases "collect rs'")
      case (Inl e')
      then have "Inl e' \<in> set rs" using collect_Inl_mem sets by blast
      with ts(2) show ?thesis by simp
    next
      case r': (Inr ts')
      then have "ts' = map projr rs'" using collect_Inr_projr by blast
      then have "mset ts' = mset ts" using ts(1) assms(1) by simp
      with Inr r' show ?thesis by simp
    qed
  qed
qed

lemma tally_read_error: "tally_read cfg g M rd = Inl e \<Longrightarrow> e = IndexError"
  by (auto simp: tally_read_target tally_incr_cell split: option.splits sum.splits)

lemma fold_lift_read_error:
  "fold (lift_read cfg) evs (Inr M) = Inl e \<Longrightarrow> e = IndexError"
proof (induction evs arbitrary: M)
  case Nil
  then show ?case by simp
next
  case (Cons ev evs)
  obtain g rd where ev: "ev = (g, rd)" by (cases ev)
  show ?case
  proof (cases "tally_read cfg g M rd")
    case (Inl e')
    then have "e' = IndexError" by (rule tally_read_error)
    with Cons.prems Inl show ?thesis by (simp add: ev fold_lift_read_Inl)
  next
    case (Inr M')
    with Cons.prems have "fold (lift_read cfg) evs (Inr M') = Inl e" by (simp add: ev)
    then show ?thesis by (rule Cons.IH)
  qed
qed

lemma map_start_sites_error:
  assumes "map_start_sites cfg inbams gd k = Inl e"
  shows "e = (if maxrdlen cfg + 1 - minrdlen cfg < 0 \<or> maxrdlen cfg < 0 then ValueError
              else IndexError)"
proof -
  obtain chr str where k: "k = (chr, str)" by (cases k)
  show ?thesis
  proof (cases "maxrdlen cfg + 1 - minrdlen cfg < 0 \<or> maxrdlen cfg < 0")
    case True
    then show ?thesis using assms by (auto simp: k map_start_sites_def np_zeros_def)
  next
    case False
    then have "fold (lift_read cfg) (unit_events inbams chr str (dict_get gd (chr, str)))
        (Inr (replicate (nat (maxrdlen cfg + 1 - minrdlen cfg)) (replicate (nat (maxrdlen cfg)) 0)))
        = Inl e"
      using assms by (simp add: k map_start_sites_def np_zeros_def tally_gcoords_fold)
    then have "e = IndexError" by (rule fold_lift_read_error)
    with False show ?thesis by simp
  qed
qed

lemma compute_offsets_permute:
  assumes "1 \<le> numproc cfg" "1 \<le> n"
    and "mset (dict_keys gd') = mset (dict_keys gd)"
    and "\<forall>k. mset (dict_get gd' k) = mset (dict_get gd k)"
  shows "compute_offsets (cfg\<lparr>numproc := n\<rparr>) inbams gd' = compute_offsets cfg inbams gd"
proof -
  let ?f = "map_start_sites cfg inbams gd"
  let ?rs = "map ?f (dict_keys gd)"
  let ?rs' = "map (map_start_sites (cfg\<lparr>numproc := n\<rparr>) inbams gd') (dict_keys gd')"
  have f': "map_start_sites (cfg\<lparr>numproc := n\<rparr>) inbams gd' = ?f"
  proof
    fix k
    have "mset (dict_get gd' k) = mset (dict_get gd k)" using assms(4) by blast
    then have "map_start_sites cfg inbams gd' k = ?f k" by (rule map_start_sites_permute)
    then show "map_start_sites (cfg\<lparr>numproc := n\<rparr>) inbams gd' k = ?f k"
      by (simp only: map_start_sites_numproc)
  qed
  have m: "mset ?rs' = mset ?rs" unfolding f' using assms(3) by simp
  have uniq: "e = e'" if "Inl e \<in> set ?rs" "Inl e' \<in> set ?rs" for e e'
  proof -
    from that obtain k k' where "?f k = Inl e" "?f k' = Inl e'" by auto
    from map_start_sites_error [OF this(1)] map_start_sites_error [OF this(2)]
    show ?thesis by simp
  qed
  from collect_permute [OF m uniq]
  consider e where "collect ?rs' = Inl e" "collect ?rs = Inl e"
    | ts ts' where "collect ?rs' = Inr ts'" "collect ?rs = Inr ts" "mset ts' = mset ts"
    by blast
  then show ?thesis
  proof cases
    case 1
    then show ?thesis using assms(1,2) by (simp add: compute_offsets_def)
  next
    case 2
    have "py_sum ts' = py_sum ts" using 2(3) by (rule py_sum_permute)
    then show ?thesis
      using assms(1,2) 2(1,2)
      by (simp add: compute_offsets_def resolve_offsets_numproc split: sum.splits)
  qed
qed

subsection \<open>The run of the script: the claims\<close>

lemma offsetfile_text_numproc: "offsetfile_text (cfg\<lparr>numproc := n\<rparr>) offs = offsetfile_text cfg offs"
  by (simp add: offsetfile_text_def)

text \<open>
  C7. With the annotation and the reads fixed, the offset table that the script writes
  is the same for every worker count (at least 1, as the pool requires), for every order
  in which the keys of \<open>gcoorddict\<close> are dispatched and their matrices summed, and for
  every order in which the coordinates of a key are visited: the text written, or the
  exception raised, is the same.
\<close>

theorem output_independent_of_workers_and_order:
  assumes "1 \<le> numproc cfg" "1 \<le> n"
    and "mset (dict_keys gd') = mset (dict_keys gd)"
    and "\<forall>k. mset (dict_get gd' k) = mset (dict_get gd k)"
  shows "script_output (cfg\<lparr>numproc := n\<rparr>) inbams gd' = script_output cfg inbams gd"
  unfolding script_output_def compute_offsets_permute [OF assms] offsetfile_text_numproc ..

theorem output_independent_of_workers_and_order_witness:
  "script_output \<lparr>minrdlen = 2, maxrdlen = 3, max5mis = 1, numproc = 4\<rparr> [two_reads, no_reads]
      [((''chr1'', ''-''), [12]), ((''chr1'', ''+''), [10, 11, 5])]
   = script_output \<lparr>minrdlen = 2, maxrdlen = 3, max5mis = 1, numproc = 1\<rparr> [two_reads, no_reads]
      [((''chr1'', ''+''), [5, 11, 10]), ((''chr1'', ''-''), [12])]"
proof -
  let ?cfg = "\<lparr>minrdlen = 2, maxrdlen = 3, max5mis = 1, numproc = 1\<rparr>"
  let ?gd = "[((''chr1'', ''+''), [5, 11, 10]), ((''chr1'', ''-''), [12])] :: gcoorddict"
  let ?gd' = "[((''chr1'', ''-''), [12]), ((''chr1'', ''+''), [10, 11, 5])] :: gcoorddict"
  have keys: "mset (dict_keys ?gd') = mset (dict_keys ?gd)"
    by (simp add: dict_keys_def add.commute)
  have coords: "\<forall>k. mset (dict_get ?gd' k) = mset (dict_get ?gd k)"
    by (auto simp: dict_get_def add.commute add.left_commute)
  have "script_output (?cfg\<lparr>numproc := 4\<rparr>) [two_reads, no_reads] ?gd'
      = script_output ?cfg [two_reads, no_reads] ?gd"
    by (rule output_independent_of_workers_and_order [OF _ _ keys coords]) simp_all
  then show ?thesis by simp
qed

lemma script_output_example:
  "script_output \<lparr>minrdlen = 2, maxrdlen = 3, max5mis = 1, numproc = 1\<rparr> [two_reads, no_reads]
      [((''chr1'', ''+''), [5, 11, 10]), ((''chr1'', ''-''), [12])]
   = Inr [CHR ''2'', CHR 0x09, CHR ''-'', CHR ''2'', CHR 0x0A, CHR ''3'', CHR 0x09, CHR ''0'', CHR 0x0A]"
  by code_simp

text \<open>
  C8, as the script has it. \<open>inbam.close()\<close> is the last statement of the script and no
  exception is caught: a run that ends with the offset table written has closed every
  alignment file, and a run that raises before has closed none.
\<close>

theorem handles_closed_iff_success:
  "(\<forall>text. outcome (run_script cfg inbams bedlines) = Inr text \<longrightarrow>
      inbams_state (run_script cfg inbams bedlines) = replicate (length inbams) Closed)
   \<and> (\<forall>e. outcome (run_script cfg inbams bedlines) = Inl e \<longrightarrow>
      inbams_state (run_script cfg inbams bedlines) = replicate (length inbams) Open)"
  by (cases "compute_offsets cfg inbams (build_gcoorddict bedlines)")
     (simp_all add: run_script_def Let_def map_replicate_const)

theorem handles_closed_iff_success_witness:
  "outcome (run_script \<lparr>minrdlen = 2, maxrdlen = 3, max5mis = 1, numproc = 1\<rparr> [two_reads, no_reads]
      [\<lparr>chrom = ''chr1'', strand = ''+'', thickstart = 11, thickend = 40\<rparr>])
     = Inr [CHR ''2'', CHR 0x09, CHR ''-'', CHR ''1'', CHR 0x0A, CHR ''3'', CHR 0x09, CHR ''1'', CHR 0x0A]
   \<and> inbams_state (run_script \<lparr>minrdlen = 2, maxrdlen = 3, max5mis = 1, numproc = 1\<rparr>
        [two_reads, no_reads]
        [\<lparr>chrom = ''chr1'', strand = ''+'', thickstart = 11, thickend = 40\<rparr>])
     = [Closed, Closed]"
proof -
  let ?run = "run_script \<lparr>minrdlen = 2, maxrdlen = 3, max5mis = 1, numproc = 1\<rparr>
      [two_reads, no_reads] [\<lparr>chrom = ''chr1'', strand = ''+'', thickstart = 11, thickend = 40\<rparr>]"
  have out: "outcome ?run
     = Inr [CHR ''2'', CHR 0x09, CHR ''-'', CHR ''1'', CHR 0x0A, CHR ''3'', CHR 0x09, CHR ''1'', CHR 0x0A]"
    by code_simp
  have "inbams_state ?run = replicate (length [two_reads, no_reads]) Closed"
    using handles_closed_iff_success [of "\<lparr>minrdlen = 2, maxrdlen = 3, max5mis = 1, numproc = 1\<rparr>"
        "[two_reads, no_reads]" "[\<lparr>chrom = ''chr1'', strand = ''+'', thickstart = 11, thickend = 40\<rparr>]"]
      out by blast
  then show ?thesis using out by (simp add: numeral_eq_Suc)
qed

text \<open>
  C8, as the specification has it, fails: with an empty annotation \<open>sum\<close> returns the
  integer 0, \<open>astype\<close> raises \<open>AttributeError\<close>, and the one alignment file that was
  opened is still open when the script ends.
\<close>

theorem handles_open_after_failure:
  "run_script \<lparr>minrdlen = 27, maxrdlen = 34, max5mis = 1, numproc = 1\<rparr> [no_reads] []
   = \<lparr>outcome = Inl AttributeError, inbams_state = [Open]\<rparr>"
  by (simp add: run_script_def build_gcoorddict_def compute_offsets_def dict_keys_def
      py_sum_def astype_float64_def)

end
